theory Spec2Isabelle
  imports Complex_Main "HOL-Library.Word"
begin

section \<open>Locational codes\<close>

text \<open>
  Modelled from the spec: the class \<open>Code\<close> (header \<open>ufomap/code.h\<close>) is used by the octree
  but is not among the sources. The spec describes it as a single integer that interleaves the
  bits of the three key components (Morton order) plus the depth, with \<open>childIdx(d)\<close> (the three
  bits at level \<open>d\<close>), \<open>toDepth(d)\<close> (mask off the lower bits) and \<open>getChild(i)\<close> (append three
  bits). The integer is a natural number here; three bits are one octal digit.
\<close>

datatype code = Code (getCode: nat) (getDepth: nat)

definition getChildIdx :: "code \<Rightarrow> nat \<Rightarrow> nat" where
  "getChildIdx c d = (getCode c div 8 ^ d) mod 8"

definition toDepth :: "code \<Rightarrow> nat \<Rightarrow> code" where
  "toDepth c d = Code ((getCode c div 8 ^ d) * 8 ^ d) d"

definition getChildCode :: "code \<Rightarrow> nat \<Rightarrow> code" where
  "getChildCode c i = Code (getCode c + i * 8 ^ (getDepth c - 1)) (getDepth c - 1)"

section \<open>Nodes and the tree\<close>

text \<open>
  \<open>InnerNode<LEAF_NODE>\<close> extends the leaf (one \<open>logit\<close>) by the two summary flags, the flag
  \<open>all_children_same\<close> and the untyped pointer \<open>children\<close>. The pointer is null (\<open>[]\<close> here) or
  points to an array of eight nodes: leaves when the node is at depth 1, inner nodes above.
  The source decides by the depth alone how to read the block, and so does the model: a leaf
  is a node of which only \<open>node_logit\<close> is ever read.
\<close>

datatype inner_node = InnerNode
  (node_logit: real)
  (contains_free: bool)
  (contains_unknown: bool)
  (all_children_same: bool)
  (children: "inner_node list")

definition set_logit :: "inner_node \<Rightarrow> real \<Rightarrow> inner_node" where
  "set_logit n v = InnerNode v (contains_free n) (contains_unknown n) (all_children_same n) (children n)"

definition set_children :: "inner_node \<Rightarrow> inner_node list \<Rightarrow> inner_node" where
  "set_children n cs = InnerNode (node_logit n) (contains_free n) (contains_unknown n) (all_children_same n) cs"

definition set_all_children_same :: "inner_node \<Rightarrow> bool \<Rightarrow> inner_node" where
  "set_all_children_same n b = InnerNode (node_logit n) (contains_free n) (contains_unknown n) b (children n)"

definition set_flags :: "inner_node \<Rightarrow> bool \<Rightarrow> bool \<Rightarrow> inner_node" where
  "set_flags n cf cu = InnerNode (node_logit n) cf cu (all_children_same n) (children n)"

text \<open>
  Modelled from the spec: the default constructor of a node (header \<open>ufomap/node.h\<close>) is not
  among the sources. Scenario A of the spec starts an untouched cell at logit 0, and a fresh
  inner node is collapsed with no child block. The spec does not give the initial summary
  flags; they are \<open>False\<close> here.
\<close>

definition default_node :: inner_node where
  "default_node = InnerNode 0 False False True []"

text \<open>
  \<open>Node<LEAF_NODE>\<close>, the handle returned by lookups: a pointer to a node (\<open>None\<close> is the null
  pointer) and the code it was found under. The pointed-to node is held by value.
\<close>

datatype node = Node (node: "inner_node option") (code: code)

type_synonym point3 = "real \<times> real \<times> real"

record octree =
  tree_type :: string
  resolution :: real
  resolution_factor :: real
  depth_levels :: nat
  max_value :: nat
  occupancy_thres_log :: real
  free_thres_log :: real
  prob_hit_log :: real
  prob_miss_log :: real
  clamping_thres_min_log :: real
  clamping_thres_max_log :: real
  bbx_limit_enabled :: bool
  bbx_min :: point3
  bbx_max :: point3
  change_detection_enabled :: bool
  changed_codes :: "code set"
  root_node :: inner_node
  nodes_sizes :: "real list"
  nodes_half_sizes :: "real list"
  automatic_pruning_enabled :: bool
  num_inner_nodes :: "64 word"
  num_inner_leaf_nodes :: "64 word"
  num_leaf_nodes :: "64 word"
  indices :: "(code \<times> real) list"

section \<open>Sensor model\<close>

definition logit :: "real \<Rightarrow> real" where
  "logit probability = ln (probability / (1 - probability))"

definition probability :: "real \<Rightarrow> real" where
  "probability l = 1 - (1 / (1 + exp l))"

definition getProbHitLog :: "octree \<Rightarrow> real" where
  "getProbHitLog t = prob_hit_log t"

definition getProbMissLog :: "octree \<Rightarrow> real" where
  "getProbMissLog t = prob_miss_log t"

definition setProbHitLog :: "octree \<Rightarrow> real \<Rightarrow> octree" where
  "setProbHitLog t l = t\<lparr>prob_hit_log := l\<rparr>"

definition setProbHit :: "octree \<Rightarrow> real \<Rightarrow> octree" where
  "setProbHit t p = setProbHitLog t (logit p)"

definition setProbMissLog :: "octree \<Rightarrow> real \<Rightarrow> octree" where
  "setProbMissLog t l = t\<lparr>prob_miss_log := l\<rparr>"

text \<open>The argument \<open>p\<close> is not used by the source: it converts the stored hit log-odds.\<close>

definition setProbMiss :: "octree \<Rightarrow> real \<Rightarrow> octree" where
  "setProbMiss t p = setProbMissLog t (logit (prob_hit_log t))"

definition isOccupiedLog :: "octree \<Rightarrow> real \<Rightarrow> bool" where
  "isOccupiedLog t l = (occupancy_thres_log t < l)"

definition isFreeLog :: "octree \<Rightarrow> real \<Rightarrow> bool" where
  "isFreeLog t l = (free_thres_log t > l)"

definition isUnknownLog :: "octree \<Rightarrow> real \<Rightarrow> bool" where
  "isUnknownLog t l = (free_thres_log t \<le> l \<and> occupancy_thres_log t \<ge> l)"

definition isOccupied :: "octree \<Rightarrow> inner_node \<Rightarrow> bool" where
  "isOccupied t n = isOccupiedLog t (node_logit n)"

definition isFree :: "octree \<Rightarrow> inner_node \<Rightarrow> bool" where
  "isFree t n = isFreeLog t (node_logit n)"

definition isUnknown :: "octree \<Rightarrow> inner_node \<Rightarrow> bool" where
  "isUnknown t n = isUnknownLog t (node_logit n)"

section \<open>Lookup\<close>

definition isLeaf :: "inner_node \<Rightarrow> bool" where
  "isLeaf n = all_children_same n"

definition hasChildren :: "inner_node \<Rightarrow> bool" where
  "hasChildren n = (\<not> all_children_same n)"

text \<open>
  The loop of \<open>getNode\<close>: \<open>current_node\<close> is the node at \<open>depth\<close>. On a node without children
  the source returns it under the code \<open>code.toDepth(depth + 1)\<close>; the other exit returns the
  node under the queried code. \<open>Code()\<close> is taken to be code 0 at depth 0.
\<close>

function getNodeFrom :: "inner_node \<Rightarrow> nat \<Rightarrow> code \<Rightarrow> bool \<Rightarrow> node" where
  "getNodeFrom current_node depth c return_nullptr =
     (if depth > getDepth c then
        (if \<not> hasChildren current_node then
           (if return_nullptr then Node None (Code 0 0)
            else Node (Some current_node) (toDepth c (depth + 1)))
         else getNodeFrom (children current_node ! getChildIdx c (depth - 1)) (depth - 1) c
                return_nullptr)
      else Node (Some current_node) c)"
  by pat_completeness auto
termination
  by (relation "measure (\<lambda>(n, depth, c, r). depth)") auto

declare getNodeFrom.simps [simp del]

definition getNode :: "octree \<Rightarrow> code \<Rightarrow> bool \<Rightarrow> node" where
  "getNode t c return_nullptr = getNodeFrom (root_node t) (depth_levels t) c return_nullptr"

text \<open>
  The overloads on a handle read through its pointer; a null pointer there is undefined
  behaviour in the source and is left unspecified here.
\<close>

definition deref :: "node \<Rightarrow> inner_node" where
  "deref n = (case node n of Some inner \<Rightarrow> inner | None \<Rightarrow> undefined)"

definition isLeafNode :: "node \<Rightarrow> bool" where
  "isLeafNode n = (if 0 = getDepth (code n) then True else isLeaf (deref n))"

definition hasChildrenNode :: "node \<Rightarrow> bool" where
  "hasChildrenNode n = (if 0 = getDepth (code n) then False else hasChildren (deref n))"

datatype error = StdException

definition getChild :: "octree \<Rightarrow> node \<Rightarrow> nat \<Rightarrow> error + node" where
  "getChild t n child_idx =
     (if \<not> isLeafNode n then Inl StdException
      else if 7 < child_idx then Inl StdException
      else Inr (getNode t (getChildCode (code n) child_idx) False))"

definition getRoot :: "octree \<Rightarrow> node" where
  "getRoot t = Node (Some (root_node t)) (Code 0 (depth_levels t))"

section \<open>Creating and deleting children\<close>

definition std_clamp :: "real \<Rightarrow> real \<Rightarrow> real \<Rightarrow> real" where
  "std_clamp v lo hi = (if v < lo then lo else if hi < v then hi else v)"

text \<open>
  The functions below work on one node of the tree and on the members of the tree beside the
  root (counters, change set, thresholds): they take the tree and the node and return both.
\<close>

definition createChildren :: "octree \<Rightarrow> inner_node \<Rightarrow> nat \<Rightarrow> bool \<times> inner_node \<times> octree" where
  "createChildren t inner depth =
     (if children inner \<noteq> [] then (False, inner, t)
      else if 1 = depth then
        (True,
         set_all_children_same (set_children inner (replicate 8 default_node)) False,
         t\<lparr>num_leaf_nodes := num_leaf_nodes t + 8,
           num_inner_leaf_nodes := num_inner_leaf_nodes t - 1,
           num_inner_nodes := num_inner_nodes t + 1\<rparr>)
      else
        (True,
         set_all_children_same
           (set_children inner
              (map (\<lambda>child. set_flags child (isFree t child) (isUnknown t child))
                 (replicate 8 default_node))) False,
         t\<lparr>num_inner_leaf_nodes := num_inner_leaf_nodes t + 7,
           num_inner_nodes := num_inner_nodes t + 1\<rparr>))"

definition expand :: "octree \<Rightarrow> inner_node \<Rightarrow> nat \<Rightarrow> bool \<times> inner_node \<times> octree" where
  "expand t inner depth =
     (if \<not> all_children_same inner then (False, inner, t)
      else
        (let (created, inner1, t1) = createChildren t inner depth
         in if 1 = depth then
              (True,
               set_children inner1
                 (map (\<lambda>child. set_logit child (node_logit inner1)) (children inner1)),
               t1)
            else
              (True,
               set_children inner1
                 (map (\<lambda>child. InnerNode (node_logit inner1) (contains_free inner1)
                                  (contains_unknown inner1) True (children child))
                    (children inner1)),
               t1)))"

text \<open>
  \<open>deleteChildren\<close> recurses into the children of a node above depth 1 before it frees the
  block; of that recursion only the counters survive. At depth 0 there is no block to free.
\<close>

fun deleteChildren :: "octree \<Rightarrow> inner_node \<Rightarrow> nat \<Rightarrow> bool \<Rightarrow> inner_node \<times> octree" where
  "deleteChildren t inner 0 manual_pruning = (set_all_children_same inner True, t)"
| "deleteChildren t inner (Suc child_depth) manual_pruning =
     (let inner1 = set_all_children_same inner True
      in if children inner1 = [] \<or> (\<not> manual_pruning \<and> \<not> automatic_pruning_enabled t)
         then (inner1, t)
         else if child_depth = 0 then
           (set_children inner1 [],
            t\<lparr>num_leaf_nodes := num_leaf_nodes t - 8,
              num_inner_leaf_nodes := num_inner_leaf_nodes t + 1,
              num_inner_nodes := num_inner_nodes t - 1\<rparr>)
         else
           (let t1 = fold (\<lambda>child s. snd (deleteChildren s child child_depth manual_pruning))
                       (children inner1) t
            in (set_children inner1 [],
                t1\<lparr>num_inner_leaf_nodes := num_inner_leaf_nodes t1 - 7,
                   num_inner_nodes := num_inner_nodes t1 - 1\<rparr>)))"

definition prune :: "octree \<Rightarrow> inner_node \<Rightarrow> nat \<Rightarrow> bool \<Rightarrow> inner_node \<times> octree" where
  "prune t inner depth manual_pruning =
     (let (inner1, t1) = deleteChildren t inner depth manual_pruning
      in (set_flags inner1 (isFree t1 inner1) (isUnknown t1 inner1), t1))"

section \<open>Summaries\<close>

definition isNodeCollapsibleLeaf :: "inner_node list \<Rightarrow> bool" where
  "isNodeCollapsibleLeaf cs =
     list_all (\<lambda>i. node_logit (cs ! 0) = node_logit (cs ! i)) [1..<8]"

definition isNodeCollapsibleInner :: "inner_node list \<Rightarrow> bool" where
  "isNodeCollapsibleInner cs =
     (if isLeaf (cs ! 0)
      then list_all (\<lambda>i. \<not> (node_logit (cs ! 0) \<noteq> node_logit (cs ! i) \<or> \<not> isLeaf (cs ! i))) [1..<8]
      else False)"

text \<open>\<open>std::numeric_limits<float>::lowest()\<close>, the most negative finite single-precision value.\<close>

definition float_lowest :: real where
  "float_lowest = - 340282346638528859811704183484516925440"

definition float_max :: real where
  "float_max = 340282346638528859811704183484516925440"

definition getMaxChildLogitInner :: "inner_node list \<Rightarrow> real" where
  "getMaxChildLogitInner cs =
     fold (\<lambda>child m. if m < node_logit child then node_logit child else m) cs float_lowest"

definition getMaxChildLogitLeaf :: "inner_node list \<Rightarrow> real" where
  "getMaxChildLogitLeaf cs =
     fold (\<lambda>child m. if m < node_logit child then node_logit child else m) cs (node_logit (cs ! 0))"

definition updateNodeLeaf :: "octree \<Rightarrow> inner_node \<Rightarrow> inner_node list \<Rightarrow> nat \<Rightarrow> bool \<times> inner_node \<times> octree" where
  "updateNodeLeaf t nd cs depth =
     (if isNodeCollapsibleLeaf cs then
        (let (nd1, t1) = prune t (set_logit nd (node_logit (cs ! 0))) depth False
         in (True, nd1, t1))
      else
        (let new_logit = getMaxChildLogitLeaf cs;
             new_contains_free = list_ex (isFree t) cs;
             new_contains_unknown = list_ex (\<lambda>child. \<not> isFree t child \<and> isUnknown t child) cs
         in if node_logit nd \<noteq> new_logit \<or> contains_free nd \<noteq> new_contains_free \<or>
               contains_unknown nd \<noteq> new_contains_unknown
            then (True, set_flags (set_logit nd new_logit) new_contains_free new_contains_unknown, t)
            else (False, nd, t)))"

definition updateNodeInner :: "octree \<Rightarrow> inner_node \<Rightarrow> inner_node list \<Rightarrow> nat \<Rightarrow> bool \<times> inner_node \<times> octree" where
  "updateNodeInner t nd cs depth =
     (if isNodeCollapsibleInner cs then
        (let (nd1, t1) = prune t (set_logit nd (node_logit (cs ! 0))) depth False
         in (True, nd1, t1))
      else
        (let new_logit = getMaxChildLogitInner cs;
             new_contains_free = list_ex contains_free cs;
             new_contains_unknown = list_ex contains_unknown cs
         in if node_logit nd \<noteq> new_logit \<or> contains_free nd \<noteq> new_contains_free \<or>
               contains_unknown nd \<noteq> new_contains_unknown
            then (True, set_flags (set_logit nd new_logit) new_contains_free new_contains_unknown, t)
            else (False, nd, t)))"

definition updateNode :: "octree \<Rightarrow> inner_node \<Rightarrow> nat \<Rightarrow> bool \<times> inner_node \<times> octree" where
  "updateNode t nd depth =
     (if 1 = depth then updateNodeLeaf t nd (children nd) depth
      else updateNodeInner t nd (children nd) depth)"

section \<open>Updating and setting node values\<close>

definition note_change :: "octree \<Rightarrow> code \<Rightarrow> octree" where
  "note_change t c =
     (if change_detection_enabled t then t\<lparr>changed_codes := insert c (changed_codes t)\<rparr> else t)"

function updateNodeValueRecurs ::
  "octree \<Rightarrow> code \<Rightarrow> real \<Rightarrow> inner_node \<Rightarrow> nat \<Rightarrow> bool \<Rightarrow> (node \<times> bool) \<times> inner_node \<times> octree" where
  "updateNodeValueRecurs t c logit_value nd current_depth set_value =
     (if current_depth > getDepth c then
        (let (expanded, inner1, t1) = expand t nd current_depth;
             child_depth = current_depth - 1;
             child_idx = getChildIdx c child_depth;
             ((child, changed), child_node, t2) =
               updateNodeValueRecurs t1 c logit_value (children inner1 ! child_idx) child_depth
                 set_value;
             inner2 = set_children inner1 ((children inner1)[child_idx := child_node])
         in if changed then
              (let (changed2, inner3, t3) = updateNode t2 inner2 current_depth
               in ((child, changed2), inner3,
                   (if changed2 then note_change t3 (toDepth c current_depth) else t3)))
            else ((child, changed), inner2, t2))
      else
        (let (nd2, t2) =
           (if set_value then
              (let nd1 = set_logit nd (std_clamp logit_value (clamping_thres_min_log t)
                                         (clamping_thres_max_log t))
               in if 0 < current_depth then prune t nd1 current_depth False else (nd1, t))
            else
              (let nd1 = set_logit nd (std_clamp (node_logit nd + logit_value)
                                         (clamping_thres_min_log t) (clamping_thres_max_log t))
               in if 0 < current_depth then
                    (if \<not> isOccupied t nd1 then prune t nd1 current_depth False
                     else if hasChildren nd1 then
                       (let (inner1, t1) =
                          fold (\<lambda>child_idx (inner, s).
                                  (let (r, child_node, s1) =
                                     updateNodeValueRecurs s (getChildCode c child_idx) logit_value
                                       (children inner ! child_idx) (current_depth - 1) set_value
                                   in (set_children inner ((children inner)[child_idx := child_node]),
                                       s1)))
                            [0..<8] (nd1, t);
                            (changed, inner2, t3) = updateNode t1 inner1 current_depth
                        in (inner2, t3))
                     else (nd1, t))
                  else (nd1, t)))
         in ((Node (Some nd2) c, True), nd2, note_change t2 c)))"
  by pat_completeness auto
termination
  by (relation "measure (\<lambda>(t, c, v, nd, current_depth, s). current_depth)") auto

declare updateNodeValueRecurs.simps [simp del]

definition setNodeValue :: "octree \<Rightarrow> code \<Rightarrow> real \<Rightarrow> node \<times> octree" where
  "setNodeValue t c logit_value0 =
     (let logit_value = std_clamp logit_value0 (clamping_thres_min_log t) (clamping_thres_max_log t);
          nd = getNode t c False
      in if logit_value \<noteq> node_logit (deref nd) then
           (let ((r, changed), root1, t1) =
                  updateNodeValueRecurs t c logit_value (root_node t) (depth_levels t) True
            in (r, t1\<lparr>root_node := root1\<rparr>))
         else (nd, t))"

definition updateNodeValue :: "octree \<Rightarrow> code \<Rightarrow> real \<Rightarrow> node \<times> octree" where
  "updateNodeValue t c logit_update =
     (let nd = getNode t c False
      in if (0 \<le> logit_update \<and> node_logit (deref nd) \<ge> clamping_thres_max_log t) \<or>
            (0 \<ge> logit_update \<and> node_logit (deref nd) \<le> clamping_thres_min_log t)
         then (nd, t)
         else
           (let ((r, changed), root1, t1) =
                  updateNodeValueRecurs t c logit_update (root_node t) (depth_levels t) False
            in (r, t1\<lparr>root_node := root1\<rparr>)))"

definition integrateHit :: "octree \<Rightarrow> code \<Rightarrow> node \<times> octree" where
  "integrateHit t c = updateNodeValue t c (prob_hit_log t)"

definition integrateMiss :: "octree \<Rightarrow> code \<Rightarrow> node \<times> octree" where
  "integrateMiss t c = updateNodeValue t c (prob_miss_log t)"

section \<open>Vectors and keys\<close>

text \<open>
  \<open>Vector3\<close> (the class behind \<open>Point3\<close>), with its components as real numbers. Division by
  zero yields 0 in HOL where the source yields an infinity or a NaN.
\<close>

fun vget :: "point3 \<Rightarrow> nat \<Rightarrow> real" where
  "vget (x, y, z) i = (if i = 0 then x else if i = 1 then y else z)"

fun vset :: "point3 \<Rightarrow> nat \<Rightarrow> real \<Rightarrow> point3" where
  "vset (x, y, z) i v = (if i = 0 then (v, y, z) else if i = 1 then (x, v, z) else (x, y, v))"

fun vadd :: "point3 \<Rightarrow> point3 \<Rightarrow> point3" where
  "vadd (x, y, z) (x', y', z') = (x + x', y + y', z + z')"

fun vsub :: "point3 \<Rightarrow> point3 \<Rightarrow> point3" where
  "vsub (x, y, z) (x', y', z') = (x - x', y - y', z - z')"

fun vscale :: "point3 \<Rightarrow> real \<Rightarrow> point3" where
  "vscale (x, y, z) v = (x * v, y * v, z * v)"

fun vdiv :: "point3 \<Rightarrow> real \<Rightarrow> point3" where
  "vdiv (x, y, z) v = (x / v, y / v, z / v)"

fun squaredNorm :: "point3 \<Rightarrow> real" where
  "squaredNorm (x, y, z) = (x * x) + (y * y) + (z * z)"

definition norm3 :: "point3 \<Rightarrow> real" where
  "norm3 p = sqrt (squaredNorm p)"

definition normalize3 :: "point3 \<Rightarrow> point3" where
  "normalize3 p = vdiv p (norm3 p)"

fun distance3 :: "point3 \<Rightarrow> point3 \<Rightarrow> real" where
  "distance3 (x, y, z) (x', y', z') =
     sqrt (((x - x') * (x - x')) + ((y - y') * (y - y')) + ((z - z') * (z - z')))"

fun min3 :: "point3 \<Rightarrow> real" where
  "min3 (x, y, z) = min (min x y) z"

fun minElementIndex :: "point3 \<Rightarrow> nat" where
  "minElementIndex (x, y, z) =
     (if x \<le> y then (if x \<le> z then 0 else 2) else (if y \<le> z then 1 else 2))"

text \<open>
  Modelled from the spec: the class \<open>Key\<close> (header \<open>ufomap/key.h\<close>) is not among the sources.
  The spec describes a key as a triple of per-axis integers with an associated depth. The
  components are unsigned 32-bit integers: natural numbers here, reduced modulo \<open>2 ^ 32\<close>
  where the source computes them.
\<close>

datatype key = Key (kx: nat) (ky: nat) (kz: nat) (getKeyDepth: nat)

fun kget :: "key \<Rightarrow> nat \<Rightarrow> nat" where
  "kget (Key x y z d) i = (if i = 0 then x else if i = 1 then y else z)"

fun kset :: "key \<Rightarrow> nat \<Rightarrow> nat \<Rightarrow> key" where
  "kset (Key x y z d) i v =
     (if i = 0 then Key v y z d else if i = 1 then Key x v z d else Key x y v d)"

definition u32 :: "int \<Rightarrow> nat" where
  "u32 i = nat (i mod 2 ^ 32)"

text \<open>
  Modelled from the spec: the conversion of a key to a code (constructor \<open>Code(const Key&)\<close>,
  header \<open>ufomap/code.h\<close>) interleaves the bits of the three components, x lowest, and keeps
  the depth of the key. 21 bits of each component are used.
\<close>

fun splitBy3 :: "nat \<Rightarrow> nat \<Rightarrow> nat" where
  "splitBy3 0 a = 0"
| "splitBy3 (Suc bits) a = a mod 2 + 8 * splitBy3 bits (a div 2)"

definition toCode :: "key \<Rightarrow> code" where
  "toCode k =
     Code (splitBy3 21 (kx k) + 2 * splitBy3 21 (ky k) + 4 * splitBy3 21 (kz k)) (getKeyDepth k)"

section \<open>Coordinates and keys\<close>

definition getNodeSize :: "octree \<Rightarrow> nat \<Rightarrow> real" where
  "getNodeSize t depth = nodes_sizes t ! depth"

definition getNodeHalfSize :: "octree \<Rightarrow> nat \<Rightarrow> real" where
  "getNodeHalfSize t depth = nodes_half_sizes t ! depth"

text \<open>
  \<open>(key_value >> depth) << depth\<close> on the signed \<open>key_value\<close> rounds down to a multiple of
  \<open>2 ^ depth\<close>; the sum with the unsigned \<open>max_value_\<close> is unsigned.
\<close>

definition coordToKey1 :: "octree \<Rightarrow> real \<Rightarrow> nat \<Rightarrow> nat" where
  "coordToKey1 t coord depth =
     (let key_value = \<lfloor>resolution_factor t * coord\<rfloor>
      in if 0 = depth then u32 (key_value + int (max_value t))
         else u32 ((key_value div 2 ^ depth) * 2 ^ depth + 2 ^ (depth - 1) + int (max_value t)))"

fun coordToKey :: "octree \<Rightarrow> point3 \<Rightarrow> nat \<Rightarrow> key" where
  "coordToKey t (x, y, z) depth =
     Key (coordToKey1 t x depth) (coordToKey1 t y depth) (coordToKey1 t z depth) depth"

definition keyToCoord1 :: "octree \<Rightarrow> nat \<Rightarrow> nat \<Rightarrow> real" where
  "keyToCoord1 t k depth =
     (if depth_levels t = depth then 0
      else (of_int \<lfloor>(real k - real (max_value t)) / 2 ^ depth\<rfloor> + 0.5) * getNodeSize t depth)"

definition keyToCoord :: "octree \<Rightarrow> key \<Rightarrow> point3" where
  "keyToCoord t k =
     (keyToCoord1 t (kx k) (getKeyDepth k), keyToCoord1 t (ky k) (getKeyDepth k),
      keyToCoord1 t (kz k) (getKeyDepth k))"

definition getMin :: "octree \<Rightarrow> point3" where
  "getMin t = (let half_size = - getNodeHalfSize t (depth_levels t) in (half_size, half_size, half_size))"

definition getMax :: "octree \<Rightarrow> point3" where
  "getMax t = (let half_size = getNodeHalfSize t (depth_levels t) in (half_size, half_size, half_size))"

section \<open>Clipping a line to the bounding box\<close>

fun inBBX :: "octree \<Rightarrow> point3 \<Rightarrow> bool" where
  "inBBX t (x, y, z) =
     (let mn = (if bbx_limit_enabled t then bbx_min t else getMin t);
          mx = (if bbx_limit_enabled t then bbx_max t else getMax t)
      in vget mn 0 \<le> x \<and> vget mx 0 \<ge> x \<and> vget mn 1 \<le> y \<and> vget mx 1 \<ge> y \<and>
         vget mn 2 \<le> z \<and> vget mx 2 \<ge> z)"

definition getIntersection :: "real \<Rightarrow> real \<Rightarrow> point3 \<Rightarrow> point3 \<Rightarrow> point3 option" where
  "getIntersection d_1 d_2 p_1 p_2 =
     (if 0 \<le> d_1 * d_2 then None
      else Some (vadd p_1 (vscale (vsub p_2 p_1) (- d_1 / (d_2 - d_1)))))"

definition inBBXAxis :: "point3 \<Rightarrow> nat \<Rightarrow> point3 \<Rightarrow> point3 \<Rightarrow> bool" where
  "inBBXAxis point axis mn mx =
     (if 0 = axis \<and> vget point 2 > vget mn 2 \<and> vget point 2 < vget mx 2 \<and>
         vget point 1 > vget mn 1 \<and> vget point 1 < vget mx 1 then True
      else if 1 = axis \<and> vget point 2 > vget mn 2 \<and> vget point 2 < vget mx 2 \<and>
         vget point 0 > vget mn 0 \<and> vget point 0 < vget mx 0 then True
      else if 2 = axis \<and> vget point 0 > vget mn 0 \<and> vget point 0 < vget mx 0 \<and>
         vget point 1 > vget mn 1 \<and> vget point 1 < vget mx 1 then True
      else False)"

text \<open>
  One of the two loops over the axes in \<open>moveLineIntoBBX\<close>: \<open>face\<close> is \<open>bbx_min\<close> in the
  first loop and \<open>bbx_max\<close> in the second; \<open>hit\<close> holds the hits counted so far.
\<close>

definition collectHits :: "point3 \<Rightarrow> point3 \<Rightarrow> point3 \<Rightarrow> point3 \<Rightarrow> point3 \<Rightarrow> point3 list \<Rightarrow> point3 list" where
  "collectHits face mn mx origin end hit =
     fold (\<lambda>i hit.
             if length hit < 2 then
               (case getIntersection (vget origin i - vget face i) (vget end i - vget face i) origin end of
                  Some h \<Rightarrow> if inBBXAxis h i mn mx then hit @ [h] else hit
                | None \<Rightarrow> hit)
             else hit)
       [0..<3] hit"

text \<open>The result is \<open>None\<close> where the source returns false, and the moved end points otherwise.\<close>

definition moveLineIntoBBX4 :: "octree \<Rightarrow> point3 \<Rightarrow> point3 \<Rightarrow> point3 \<Rightarrow> point3 \<Rightarrow> (point3 \<times> point3) option" where
  "moveLineIntoBBX4 t mn mx origin end =
     (if (vget origin 0 < vget mn 0 \<and> vget end 0 < vget mn 0) \<or>
         (vget origin 0 > vget mx 0 \<and> vget end 0 > vget mx 0) \<or>
         (vget origin 1 < vget mn 1 \<and> vget end 1 < vget mn 1) \<or>
         (vget origin 1 > vget mx 1 \<and> vget end 1 > vget mx 1) \<or>
         (vget origin 2 < vget mn 2 \<and> vget end 2 < vget mn 2) \<or>
         (vget origin 2 > vget mx 2 \<and> vget end 2 > vget mx 2)
      then None
      else
        (let hit = collectHits mx mn mx origin end (collectHits mn mn mx origin end [])
         in if length hit = 1 then
              (if inBBX t origin then Some (origin, hit ! 0) else Some (hit ! 0, end))
            else if length hit = 2 then
              (if squaredNorm (vsub origin (hit ! 0)) + squaredNorm (vsub end (hit ! 1)) \<le>
                  squaredNorm (vsub origin (hit ! 1)) + squaredNorm (vsub end (hit ! 0))
               then Some (hit ! 0, hit ! 1)
               else Some (hit ! 1, hit ! 0))
            else Some (origin, end)))"

definition moveLineIntoBBX :: "octree \<Rightarrow> point3 \<Rightarrow> point3 \<Rightarrow> (point3 \<times> point3) option" where
  "moveLineIntoBBX t origin end =
     (let mn = (if bbx_limit_enabled t then bbx_min t else getMin t);
          mx = (if bbx_limit_enabled t then bbx_max t else getMax t)
      in moveLineIntoBBX4 t mn mx origin end)"

section \<open>Ray traversal\<close>

text \<open>
  The state that \<open>computeRayInit\<close> fills in. When the two keys are equal it returns before it
  writes \<open>step\<close>, \<open>t_delta\<close> and \<open>t_max\<close>; no caller reads them then, and the model has zeros.
\<close>

record ray_state =
  current :: key
  ending :: key
  step :: "int \<times> int \<times> int"
  t_delta :: point3
  t_max :: point3

fun iget :: "int \<times> int \<times> int \<Rightarrow> nat \<Rightarrow> int" where
  "iget (x, y, z) i = (if i = 0 then x else if i = 1 then y else z)"

fun iset :: "int \<times> int \<times> int \<Rightarrow> nat \<Rightarrow> int \<Rightarrow> int \<times> int \<times> int" where
  "iset (x, y, z) i v = (if i = 0 then (v, y, z) else if i = 1 then (x, v, z) else (x, y, v))"

definition computeRayInitAxis ::
  "octree \<Rightarrow> point3 \<Rightarrow> point3 \<Rightarrow> nat \<Rightarrow> nat \<Rightarrow>
   point3 \<times> (int \<times> int \<times> int) \<times> point3 \<times> point3 \<Rightarrow>
   point3 \<times> (int \<times> int \<times> int) \<times> point3 \<times> point3" where
  "computeRayInitAxis t origin direction_normalized depth i =
     (\<lambda>(voxel_border, stp, td, tm).
        (let s = (if 0 < vget direction_normalized i then 1
                  else if 0 > vget direction_normalized i then - 1 else 0);
             stp1 = iset stp i s
         in if 0 \<noteq> s then
              (let td1 = vset td i (getNodeSize t depth / \<bar>vget direction_normalized i\<bar>);
                   vb1 = vset voxel_border i
                           (vget voxel_border i + of_int s * getNodeHalfSize t depth);
                   tm1 = vset tm i ((vget vb1 i - vget origin i) / vget direction_normalized i)
               in (vb1, stp1, td1, tm1))
            else (voxel_border, stp1, vset td i float_max, vset tm i float_max)))"

definition computeRayInit :: "octree \<Rightarrow> point3 \<Rightarrow> point3 \<Rightarrow> point3 \<Rightarrow> nat \<Rightarrow> ray_state" where
  "computeRayInit t origin end direction_normalized depth =
     (let cur = coordToKey t origin depth;
          en = coordToKey t end depth
      in if cur = en then
           \<lparr>current = cur, ending = en, step = (0, 0, 0), t_delta = (0, 0, 0), t_max = (0, 0, 0)\<rparr>
         else
           (let (vb, stp, td, tm) =
                  fold (computeRayInitAxis t origin direction_normalized depth) [0..<3]
                    (keyToCoord t cur, (0, 0, 0), (0, 0, 0), (0, 0, 0))
            in \<lparr>current = cur, ending = en, step = stp, t_delta = td, t_max = tm\<rparr>))"

definition computeRayTakeStep :: "ray_state \<Rightarrow> nat \<Rightarrow> ray_state" where
  "computeRayTakeStep s depth =
     (let advance_dim = minElementIndex (t_max s)
      in s\<lparr>current := kset (current s) advance_dim
                         (u32 (int (kget (current s) advance_dim) + iget (step s) advance_dim * 2 ^ depth)),
           t_max := vset (t_max s) advance_dim
                      (vget (t_max s) advance_dim + vget (t_delta s) advance_dim)\<rparr>)"

text \<open>The loop of \<open>computeRay\<close>; \<open>None\<close> stands for a loop that does not end.\<close>

partial_function (option) computeRayLoop :: "real \<Rightarrow> nat \<Rightarrow> ray_state \<Rightarrow> key list \<Rightarrow> key list option" where
  "computeRayLoop max_range depth s ray =
     (if current s \<noteq> ending s \<and> min3 (t_max s) \<le> max_range
      then computeRayLoop max_range depth (computeRayTakeStep s depth) (ray @ [current s])
      else Some ray)"

definition computeRay :: "octree \<Rightarrow> point3 \<Rightarrow> point3 \<Rightarrow> key list \<Rightarrow> real \<Rightarrow> nat \<Rightarrow> key list option" where
  "computeRay t origin end0 ray max_range depth =
     (let direction = normalize3 (vsub end0 origin);
          end1 = (if 0 \<le> max_range \<and> max_range < distance3 origin end0
                  then vadd origin (vscale direction max_range) else end0)
      in case moveLineIntoBBX t origin end1 of
           None \<Rightarrow> Some ray
         | Some (origin2, end2) \<Rightarrow>
             computeRayLoop max_range depth (computeRayInit t origin2 end2 direction depth) ray)"

text \<open>
  A bound on the number of steps a traversal can still take while its smallest \<open>t_max\<close> is at
  most \<open>bound\<close>: each step raises one component of \<open>t_max\<close> by the matching component of
  \<open>t_delta\<close>.
\<close>

definition steps_left :: "real \<Rightarrow> ray_state \<Rightarrow> nat" where
  "steps_left bound s =
     nat (\<lfloor>(bound - vget (t_max s) 0) / vget (t_delta s) 0\<rfloor> + 1) +
     nat (\<lfloor>(bound - vget (t_max s) 1) / vget (t_delta s) 1\<rfloor> + 1) +
     nat (\<lfloor>(bound - vget (t_max s) 2) / vget (t_delta s) 2\<rfloor> + 1)"

definition positive_delta :: "ray_state \<Rightarrow> bool" where
  "positive_delta s =
     (0 < vget (t_delta s) 0 \<and> 0 < vget (t_delta s) 1 \<and> 0 < vget (t_delta s) 2)"

section \<open>Casting a ray\<close>

definition isOccupiedKey :: "octree \<Rightarrow> key \<Rightarrow> bool" where
  "isOccupiedKey t k = isOccupied t (deref (getNode t (toCode k) False))"

definition isUnknownKey :: "octree \<Rightarrow> key \<Rightarrow> bool" where
  "isUnknownKey t k = isUnknown t (deref (getNode t (toCode k) False))"

text \<open>The loop of \<open>castRay\<close>: it returns the state in which stepping stops.\<close>

partial_function (option) castRayLoop :: "octree \<Rightarrow> bool \<Rightarrow> real \<Rightarrow> nat \<Rightarrow> ray_state \<Rightarrow> ray_state option" where
  "castRayLoop t ignore_unknown max_range depth s =
     (if current s \<noteq> ending s \<and> min3 (t_max s) \<le> max_range \<and> \<not> isOccupiedKey t (current s) \<and>
         (ignore_unknown \<or> \<not> isUnknownKey t (current s))
      then castRayLoop t ignore_unknown max_range depth (computeRayTakeStep s depth)
      else Some s)"

text \<open>
  \<open>castRay\<close> returns its result and the value of the reference parameter \<open>end\<close>, which it
  leaves as the caller passed it when the line misses the box.
\<close>

definition castRay ::
  "octree \<Rightarrow> point3 \<Rightarrow> point3 \<Rightarrow> point3 \<Rightarrow> bool \<Rightarrow> real \<Rightarrow> nat \<Rightarrow> (bool \<times> point3) option" where
  "castRay t origin direction0 end0 ignore_unknown max_range0 depth =
     (let max_range = (if 0 > max_range0 then distance3 (getMin t) (getMax t) else max_range0);
          direction = normalize3 direction0;
          the_end = vadd origin (vscale direction max_range)
      in case moveLineIntoBBX t origin the_end of
           None \<Rightarrow> Some (False, end0)
         | Some (origin2, the_end2) \<Rightarrow>
             (case castRayLoop t ignore_unknown max_range depth
                     (computeRayInit t origin2 the_end2 direction depth) of
                None \<Rightarrow> None
              | Some s \<Rightarrow> Some (isOccupiedKey t (current s), keyToCoord t (current s))))"

section \<open>Inserting a point cloud\<close>

text \<open>
  The accumulator \<open>indices_\<close> maps codes to pending log-odds updates. It is a list of entries
  with distinct codes here, in the order of insertion; the source iterates over a hash map,
  in an order it does not specify. \<open>indices_[code] = value\<close> overwrites an entry or appends
  one; \<open>try_emplace\<close> appends one only when the code has none.
\<close>

fun assign :: "(code \<times> real) list \<Rightarrow> code \<Rightarrow> real \<Rightarrow> (code \<times> real) list" where
  "assign [] k v = [(k, v)]"
| "assign ((k', v') # kvs) k v = (if k' = k then (k, v) # kvs else (k', v') # assign kvs k v)"

definition try_emplace :: "(code \<times> real) list \<Rightarrow> code \<Rightarrow> real \<Rightarrow> (code \<times> real) list" where
  "try_emplace acc k v = (if map_of acc k = None then acc @ [(k, v)] else acc)"

text \<open>The loop of \<open>computeUpdate\<close> over the cells of one ray, at depth 0.\<close>

partial_function (option) computeUpdateLoop ::
  "octree \<Rightarrow> real \<Rightarrow> ray_state \<Rightarrow> (code \<times> real) list \<Rightarrow> (code \<times> real) list option" where
  "computeUpdateLoop t distance s acc =
     (if current s \<noteq> ending s \<and> min3 (t_max s) \<le> distance
      then computeUpdateLoop t distance (computeRayTakeStep s 0)
             (try_emplace acc (toCode (current s)) (prob_miss_log t))
      else Some acc)"

text \<open>The body of the loop over the cloud, for the point \<open>p\<close>.\<close>

definition computeUpdatePoint ::
  "octree \<Rightarrow> point3 \<Rightarrow> point3 \<Rightarrow> real \<Rightarrow> (code \<times> real) list \<Rightarrow> (code \<times> real) list option" where
  "computeUpdatePoint t sensor_origin p max_range acc =
     (let origin = sensor_origin;
          end0 = vsub p origin;
          distance = norm3 end0;
          dir = vdiv end0 distance;
          end1 = (if 0 \<le> max_range \<and> distance > max_range
                  then vadd origin (vscale dir max_range) else p)
      in case moveLineIntoBBX t origin end1 of
           None \<Rightarrow> Some acc
         | Some (origin2, end2) \<Rightarrow>
             (let acc1 = (if p = end2 then assign acc (toCode (coordToKey t end2 0)) (prob_hit_log t)
                          else acc)
              in computeUpdateLoop t distance (computeRayInit t origin2 end2 dir 0) acc1))"

fun computeUpdate ::
  "octree \<Rightarrow> point3 \<Rightarrow> point3 list \<Rightarrow> real \<Rightarrow> (code \<times> real) list \<Rightarrow> (code \<times> real) list option" where
  "computeUpdate t sensor_origin [] max_range acc = Some acc"
| "computeUpdate t sensor_origin (p # cloud) max_range acc =
     (case computeUpdatePoint t sensor_origin p max_range acc of
        None \<Rightarrow> None
      | Some acc1 \<Rightarrow> computeUpdate t sensor_origin cloud max_range acc1)"

definition insertPointCloud :: "octree \<Rightarrow> point3 \<Rightarrow> point3 list \<Rightarrow> real \<Rightarrow> octree option" where
  "insertPointCloud t sensor_origin cloud max_range =
     (case computeUpdate t sensor_origin cloud max_range (indices t) of
        None \<Rightarrow> None
      | Some acc \<Rightarrow>
          Some ((fold (\<lambda>(c, v) s. snd (updateNodeValue s c v)) acc (t\<lparr>indices := acc\<rparr>))
                  \<lparr>indices := []\<rparr>))"

text \<open>
  The code of the cell that the point \<open>p\<close> marks as hit, if its end point survives the range
  limit and the clipping.
\<close>

definition endpointCode :: "octree \<Rightarrow> point3 \<Rightarrow> real \<Rightarrow> point3 \<Rightarrow> code option" where
  "endpointCode t sensor_origin max_range p =
     (let end0 = vsub p sensor_origin;
          distance = norm3 end0;
          dir = vdiv end0 distance;
          end1 = (if 0 \<le> max_range \<and> distance > max_range
                  then vadd sensor_origin (vscale dir max_range) else p)
      in case moveLineIntoBBX t sensor_origin end1 of
           None \<Rightarrow> None
         | Some (origin2, end2) \<Rightarrow> if p = end2 then Some (toCode (coordToKey t end2 0)) else None)"

text \<open>The cells that some point of the cloud marks as hit.\<close>

definition hit_codes :: "octree \<Rightarrow> point3 \<Rightarrow> real \<Rightarrow> point3 list \<Rightarrow> code set" where
  "hit_codes t orig mr cloud = {c. \<exists>p \<in> set cloud. endpointCode t orig mr p = Some c}"

text \<open>
  The cells that the ray to the point \<open>p\<close> traverses: the cells its traversal stands in before
  it stops, in the order of the traversal, as the loop of \<open>computeRay\<close> collects them when its
  bound is the distance to the point. The cell in which the traversal stops is not among
  them.
\<close>

definition traversedCodes :: "octree \<Rightarrow> point3 \<Rightarrow> real \<Rightarrow> point3 \<Rightarrow> code list" where
  "traversedCodes t sensor_origin max_range p =
     (let end0 = vsub p sensor_origin;
          distance = norm3 end0;
          dir = vdiv end0 distance;
          end1 = (if 0 \<le> max_range \<and> distance > max_range
                  then vadd sensor_origin (vscale dir max_range) else p)
      in case moveLineIntoBBX t sensor_origin end1 of
           None \<Rightarrow> []
         | Some (origin2, end2) \<Rightarrow>
             (case computeRayLoop distance 0 (computeRayInit t origin2 end2 dir 0) [] of
                None \<Rightarrow> []
              | Some ray \<Rightarrow> map toCode ray))"

text \<open>The cells that the ray to some point of the cloud traverses.\<close>

definition miss_codes :: "octree \<Rightarrow> point3 \<Rightarrow> real \<Rightarrow> point3 list \<Rightarrow> code set" where
  "miss_codes t orig mr cloud = {c. \<exists>p \<in> set cloud. c \<in> set (traversedCodes t orig mr p)}"

section \<open>Streams\<close>

text \<open>
  A stream is a list of chunks: a character of text, a number as formatted input reads it
  back (its digits are not modelled one by one: the chunk holds the value that the digits
  written denote), a raw byte, or the raw payload of one leaf. Reading and writing take and
  append chunks at the front and the end.
\<close>

datatype chunk = Chr char | Num real | Byte "8 word" | Raw real

definition newline :: char where
  "newline = CHR 0x0A"

definition endl :: "chunk list" where
  "endl = [Chr newline]"

definition put_text :: "string \<Rightarrow> chunk list" where
  "put_text w = map Chr w"

text \<open>
  \<open>s << x\<close> for a floating point \<open>x\<close> prints it with the default precision, six significant
  decimal digits, and \<open>s >> x\<close> parses these digits: what is read back is \<open>x\<close> rounded to six
  significant digits, a tie to the even digit. An integer or a \<open>bool\<close> is printed in full.
\<close>

definition round_half_even :: "real \<Rightarrow> int" where
  "round_half_even x =
     (let f = \<lfloor>x\<rfloor>
      in if x - of_int f < 1 / 2 then f
         else if 1 / 2 < x - of_int f then f + 1
         else if even f then f else f + 1)"

definition print_float :: "real \<Rightarrow> real" where
  "print_float x =
     (if x = 0 then 0
      else
        (let e = \<lfloor>log 10 \<bar>x\<bar>\<rfloor>;
             q = 10 powr (of_int e - 5)
         in of_int (round_half_even (x / q)) * q))"

definition is_space :: "char \<Rightarrow> bool" where
  "is_space c = (c = CHR '' '' \<or> c = newline \<or> c = CHR 0x09 \<or> c = CHR 0x0B \<or> c = CHR 0x0C \<or> c = CHR 0x0D)"

fun skip_ws :: "chunk list \<Rightarrow> chunk list" where
  "skip_ws (Chr c # s) = (if is_space c then skip_ws s else Chr c # s)"
| "skip_ws s = s"

fun take_word :: "chunk list \<Rightarrow> string \<times> chunk list" where
  "take_word (Chr c # s) =
     (if is_space c then ([], Chr c # s) else (let (w, r) = take_word s in (c # w, r)))"
| "take_word s = ([], s)"

text \<open>
  What \<open>s >> x\<close> finds after the white space: a word, a number, bytes that are neither, or the
  end of the stream.
\<close>

datatype token = Word string | Number real | Garbage | Eof

definition next_token :: "chunk list \<Rightarrow> token \<times> chunk list" where
  "next_token s =
     (case skip_ws s of
        [] \<Rightarrow> (Eof, [])
      | Chr c # r \<Rightarrow> (let (w, rest) = take_word (Chr c # r) in (Word w, rest))
      | Num x # r \<Rightarrow> (Number x, r)
      | Byte b # r \<Rightarrow> (Garbage, r)
      | Raw l # r \<Rightarrow> (Garbage, r))"

text \<open>\<open>do c = s.get(); while (s.good() && c != '\n')\<close>: the rest of the line is dropped.\<close>

fun skip_line :: "chunk list \<Rightarrow> chunk list" where
  "skip_line [] = []"
| "skip_line (c # s) = (if c = Chr newline \<or> c = Byte 10 then s else skip_line s)"

text \<open>\<open>std::getline\<close>: the chunks before the first line end, and the stream after it.\<close>

fun getline :: "chunk list \<Rightarrow> chunk list \<times> chunk list" where
  "getline [] = ([], [])"
| "getline (c # s) =
     (if c = Chr newline \<or> c = Byte 10 then ([], s) else (let (l, r) = getline s in (c # l, r)))"

text \<open>
  \<open>s.read(&c, 1)\<close>. At the end of the stream the source leaves \<open>c\<close> uninitialised; the model
  reads 0 there, and 0 for a chunk that is no byte or character.
\<close>

definition get_char :: "chunk list \<Rightarrow> 8 word \<times> chunk list" where
  "get_char s =
     (case s of
        [] \<Rightarrow> (0, [])
      | Byte b # r \<Rightarrow> (b, r)
      | Chr c # r \<Rightarrow> (of_nat (of_char c), r)
      | Num x # r \<Rightarrow> (0, r)
      | Raw l # r \<Rightarrow> (0, r))"

text \<open>
  Modelled from the spec: the leaf's \<open>writeData\<close> and \<open>readData\<close> (header \<open>ufomap/node.h\<close>) are
  not among the sources; the spec delegates the raw representation of the logit to them. A
  leaf is written as one payload chunk holding its logit, and read back from one; a read that
  finds no payload leaves the logit as it is and passes over the chunk it found.
\<close>

definition nodeWriteData :: "inner_node \<Rightarrow> chunk list" where
  "nodeWriteData n = [Raw (node_logit n)]"

definition nodeReadData :: "inner_node \<Rightarrow> chunk list \<Rightarrow> inner_node \<times> chunk list" where
  "nodeReadData n s =
     (case s of
        [] \<Rightarrow> (n, [])
      | Raw l # r \<Rightarrow> (set_logit n l, r)
      | Chr c # r \<Rightarrow> (n, r)
      | Num x # r \<Rightarrow> (n, r)
      | Byte b # r \<Rightarrow> (n, r))"

text \<open>The bytes a chunk takes in the stream; a payload is one \<open>float\<close>.\<close>

fun chunk_bytes :: "chunk \<Rightarrow> int" where
  "chunk_bytes (Raw l) = 4"
| "chunk_bytes c = 1"

definition stream_bytes :: "chunk list \<Rightarrow> int" where
  "stream_bytes s = sum_list (map chunk_bytes s)"

text \<open>
  Modelled from the spec: the LZ4 codec is an external collaborator with a block interface,
  \<open>compress_default\<close> and \<open>decompress_safe\<close>, whose negative return value indicates failure
  (\<open>None\<close> here). The second argument of \<open>decompress_safe\<close> is the capacity of the output.
\<close>

record codec =
  LZ4_compress_default :: "chunk list \<Rightarrow> chunk list option"
  LZ4_decompress_safe :: "chunk list \<Rightarrow> int \<Rightarrow> chunk list option"

text \<open>
  Modelled from the spec: a bounding volume (namespace \<open>ufomap_geometry\<close>) is a set of
  primitive volumes with \<open>empty()\<close> and \<open>intersects\<close> of an axis-aligned box, given here by its
  centre and half size. A primitive volume is its intersection test.
\<close>

type_synonym bounding_volume = "(point3 \<Rightarrow> real \<Rightarrow> bool) list"

definition bv_empty :: "bounding_volume \<Rightarrow> bool" where
  "bv_empty bv = (bv = [])"

definition bv_intersects :: "bounding_volume \<Rightarrow> point3 \<Rightarrow> real \<Rightarrow> bool" where
  "bv_intersects bv center half_size = list_ex (\<lambda>v. v center half_size) bv"

definition getChildCenter :: "point3 \<Rightarrow> real \<Rightarrow> nat \<Rightarrow> point3" where
  "getChildCenter parent_center child_half_size child_idx =
     (vget parent_center 0 + (if odd child_idx then child_half_size else - child_half_size),
      vget parent_center 1 + (if odd (child_idx div 2) then child_half_size else - child_half_size),
      vget parent_center 2 + (if odd (child_idx div 4) then child_half_size else - child_half_size))"

text \<open>A \<open>std::bitset<8>\<close> from its eight bits, bit 0 first.\<close>

definition bitset8 :: "bool list \<Rightarrow> 8 word" where
  "bitset8 bs = horner_sum of_bool 2 bs"

section \<open>Writing a tree\<close>

definition FILE_HEADER :: string where
  "FILE_HEADER = ''# UFOMap octree file''"

definition FILE_VERSION :: string where
  "FILE_VERSION = ''1.0.0''"

definition binarySupport :: "octree \<Rightarrow> bool" where
  "binarySupport t = False"

definition getOccupancyThres :: "octree \<Rightarrow> real" where
  "getOccupancyThres t = probability (occupancy_thres_log t)"

definition getFreeThres :: "octree \<Rightarrow> real" where
  "getFreeThres t = probability (free_thres_log t)"

text \<open>
  \<open>writeNodesRecurs\<close> returns true on every path; the model returns what it writes. Below
  depth 1 the source would read a leaf block as inner nodes; nothing is written there.
\<close>

function writeNodesRecurs ::
  "octree \<Rightarrow> bounding_volume \<Rightarrow> inner_node \<Rightarrow> point3 \<Rightarrow> nat \<Rightarrow> nat \<Rightarrow> chunk list" where
  "writeNodesRecurs t bv nd center current_depth min_depth =
     (if current_depth = 0 then []
      else
        (let child_depth = current_depth - 1;
             child_half_size = getNodeHalfSize t child_depth;
             child_centers = map (getChildCenter center child_half_size) [0..<8];
             child_intersects =
               (if child_depth > min_depth
                then map (\<lambda>i. bv_empty bv \<or> bv_intersects bv (child_centers ! i) child_half_size) [0..<8]
                else replicate 8 False);
             children_bits =
               (if child_depth > min_depth
                then map (\<lambda>i. child_intersects ! i \<and> hasChildren (children nd ! i)) [0..<8]
                else replicate 8 False)
         in Byte (bitset8 children_bits) #
            concat (map (\<lambda>i.
              if child_intersects ! i then
                (let child = children nd ! i
                 in if children_bits ! i then
                      (if 1 = child_depth then
                         (let child_child_half_size = getNodeHalfSize t 0
                          in concat (map (\<lambda>j.
                               if bv_empty bv \<or>
                                  bv_intersects bv
                                    (getChildCenter (child_centers ! i) child_child_half_size j)
                                    child_child_half_size
                               then nodeWriteData (children child ! j) else []) [0..<8]))
                       else writeNodesRecurs t bv child (child_centers ! i) child_depth min_depth)
                    else nodeWriteData child)
              else []) [0..<8])))"
  by pat_completeness auto
termination
  by (relation "measure (\<lambda>(t, bv, nd, center, current_depth, min_depth). current_depth)") auto

declare writeNodesRecurs.simps [simp del]

definition writeNodes ::
  "octree \<Rightarrow> bounding_volume \<Rightarrow> inner_node \<Rightarrow> nat \<Rightarrow> nat \<Rightarrow> bool \<times> chunk list" where
  "writeNodes t bv nd current_depth min_depth =
     (let center = (0, 0, 0);
          half_size = getNodeHalfSize t current_depth
      in if \<not> bv_empty bv \<and> \<not> bv_intersects bv center half_size then (True, [])
         else
           (let children_bits = (if hasChildren nd \<and> current_depth > min_depth
                                 then replicate 8 True else replicate 8 False)
            in if bitset8 children_bits = 0
               then (True, Byte (bitset8 children_bits) # nodeWriteData nd)
               else (True, Byte (bitset8 children_bits) #
                            writeNodesRecurs t bv nd center current_depth min_depth)))"

text \<open>The binary variant is not implemented in the source: it writes nothing and succeeds.\<close>

definition writeBinaryNodes ::
  "octree \<Rightarrow> bounding_volume \<Rightarrow> inner_node \<Rightarrow> nat \<Rightarrow> nat \<Rightarrow> bool \<times> chunk list" where
  "writeBinaryNodes t bv nd current_depth min_depth = (True, [])"

definition compressData :: "codec \<Rightarrow> chunk list \<Rightarrow> chunk list option" where
  "compressData cdc s_in = LZ4_compress_default cdc s_in"

definition decompressData :: "codec \<Rightarrow> chunk list \<Rightarrow> int \<Rightarrow> chunk list option" where
  "decompressData cdc s_in uncompressed_data_size = LZ4_decompress_safe cdc s_in uncompressed_data_size"

text \<open>
  \<open>writeData\<close> returns the size of the uncompressed data, or -1, and what it writes. With
  \<open>compress\<close> it calls itself once without. The size is the difference of two stream
  positions, returned as an \<open>int\<close>: it is narrowed to 32 bits.
\<close>

definition to_int32 :: "int \<Rightarrow> int" where
  "to_int32 i = (i + 2 ^ 31) mod 2 ^ 32 - 2 ^ 31"

definition writeDataPlain ::
  "octree \<Rightarrow> bounding_volume \<Rightarrow> bool \<Rightarrow> nat \<Rightarrow> int \<times> chunk list" where
  "writeDataPlain t bv binary depth =
     (if binary \<and> \<not> binarySupport t then (- 1, [])
      else
        (let (ok, out) = (if binary then writeBinaryNodes t bv (root_node t) (depth_levels t) depth
                          else writeNodes t bv (root_node t) (depth_levels t) depth)
         in if \<not> ok then (- 1, out) else (to_int32 (stream_bytes out), out)))"

definition writeData ::
  "codec \<Rightarrow> octree \<Rightarrow> bounding_volume \<Rightarrow> bool \<Rightarrow> bool \<Rightarrow> nat \<Rightarrow> int \<times> chunk list" where
  "writeData cdc t bv compress binary depth =
     (if binary \<and> \<not> binarySupport t then (- 1, [])
      else if compress then
        (let (uncompressed_data_size, data) = writeDataPlain t bv binary depth
         in if 0 > uncompressed_data_size then (- 1, [])
            else (case compressData cdc data of
                    None \<Rightarrow> (- 1, [])
                  | Some compressed_data \<Rightarrow> (uncompressed_data_size, compressed_data)))
      else writeDataPlain t bv binary depth)"

definition write_header :: "octree \<Rightarrow> bool \<Rightarrow> bool \<Rightarrow> int \<Rightarrow> chunk list" where
  "write_header t compress binary uncompressed_data_size =
     put_text FILE_HEADER @
     put_text (newline # ''# (feel free to add / change comments, but leave the first line as it is!)'') @
     put_text [newline, CHR ''#'', newline] @
     put_text ''version '' @ put_text FILE_VERSION @ endl @
     put_text ''id '' @ put_text (tree_type t) @ endl @
     put_text ''binary '' @ [Num (of_bool binary)] @ endl @
     put_text ''resolution '' @ [Num (print_float (resolution t))] @ endl @
     put_text ''depth_levels '' @ [Num (real (depth_levels t))] @ endl @
     put_text ''occupancy_thres '' @ [Num (print_float (getOccupancyThres t))] @ endl @
     put_text ''free_thres '' @ [Num (print_float (getFreeThres t))] @ endl @
     put_text ''compressed '' @ [Num (of_bool compress)] @ endl @
     put_text ''uncompressed_data_size '' @ [Num (of_int uncompressed_data_size)] @ endl @
     put_text ''data'' @ endl"

text \<open>\<open>write\<close> to a stream (the name alone is taken in Isabelle).\<close>

definition write_octree ::
  "codec \<Rightarrow> octree \<Rightarrow> bounding_volume \<Rightarrow> bool \<Rightarrow> bool \<Rightarrow> nat \<Rightarrow> bool \<times> chunk list" where
  "write_octree cdc t bv compress binary depth =
     (if binary \<and> \<not> binarySupport t then (False, [])
      else
        (let (uncompressed_data_size, data) = writeData cdc t bv compress binary depth
         in if 0 > uncompressed_data_size then (False, [])
            else (True, write_header t compress binary uncompressed_data_size @ data)))"

section \<open>Reading a tree\<close>

text \<open>
  The values \<open>readHeader\<close> collects. A failed extraction (the end of the stream, or no number
  where one is expected) leaves the stream in a failed state: the loop ends without the
  \<open>data\<close> token and \<open>readHeader\<close> returns false, \<open>None\<close> here. A number where a word is expected
  is taken as such a failure as well.
\<close>

record header =
  file_version :: string
  id :: string
  binary :: bool
  h_resolution :: real
  h_depth_levels :: nat
  h_occupancy_thres :: real
  h_free_thres :: real
  compressed :: bool
  uncompressed_data_size :: int

definition initial_header :: header where
  "initial_header =
     \<lparr>file_version = [], id = [], binary = False, h_resolution = 0, h_depth_levels = 0,
      h_occupancy_thres = - 1, h_free_thres = - 1, compressed = False,
      uncompressed_data_size = - 1\<rparr>"

definition get_word :: "chunk list \<Rightarrow> (string \<times> chunk list) option" where
  "get_word s = (case next_token s of (Word w, r) \<Rightarrow> Some (w, r) | (tok, r) \<Rightarrow> None)"

definition get_number :: "chunk list \<Rightarrow> (real \<times> chunk list) option" where
  "get_number s = (case next_token s of (Number x, r) \<Rightarrow> Some (x, r) | (tok, r) \<Rightarrow> None)"

definition get_bool :: "chunk list \<Rightarrow> (bool \<times> chunk list) option" where
  "get_bool s =
     (case get_number s of
        Some (x, r) \<Rightarrow> if x = 0 then Some (False, r) else if x = 1 then Some (True, r) else None
      | None \<Rightarrow> None)"

text \<open>
  \<open>s >> x\<close> for an integer \<open>x\<close>. Into an \<open>int\<close> the extraction fails on a value out of its
  range. Into an \<open>unsigned int\<close> it accepts a minus sign and negates the value modulo
  \<open>2 ^ 32\<close>, and fails when the digits alone are out of range.
\<close>

definition get_integer :: "chunk list \<Rightarrow> (int \<times> chunk list) option" where
  "get_integer s =
     (case get_number s of
        Some (x, r) \<Rightarrow> if x = of_int \<lfloor>x\<rfloor> then Some (\<lfloor>x\<rfloor>, r) else None
      | None \<Rightarrow> None)"

definition get_int :: "chunk list \<Rightarrow> (int \<times> chunk list) option" where
  "get_int s =
     (case get_integer s of
        Some (i, r) \<Rightarrow> if - (2 ^ 31) \<le> i \<and> i < 2 ^ 31 then Some (i, r) else None
      | None \<Rightarrow> None)"

definition get_unsigned :: "chunk list \<Rightarrow> (nat \<times> chunk list) option" where
  "get_unsigned s =
     (case get_integer s of
        Some (i, r) \<Rightarrow> if - (2 ^ 32) < i \<and> i < 2 ^ 32 then Some (u32 i, r) else None
      | None \<Rightarrow> None)"

text \<open>One pass of the loop in \<open>readHeader\<close>: the header is complete, goes on, or has failed.\<close>

datatype header_step = Done header "chunk list" | More header "chunk list" | Failed

definition readHeaderStep :: "header \<Rightarrow> chunk list \<Rightarrow> header_step" where
  "readHeaderStep h s =
     (case next_token s of
        (Eof, r) \<Rightarrow> Failed
      | (Word tok, r) \<Rightarrow>
          if tok = ''data'' then Done h (skip_line r)
          else if take 1 tok = ''#'' then More h (skip_line r)
          else if tok = ''version'' then
            (case get_word r of Some (v, r1) \<Rightarrow> More (h\<lparr>file_version := v\<rparr>) r1 | None \<Rightarrow> Failed)
          else if tok = ''id'' then
            (case get_word r of Some (v, r1) \<Rightarrow> More (h\<lparr>id := v\<rparr>) r1 | None \<Rightarrow> Failed)
          else if tok = ''binary'' then
            (case get_bool r of Some (v, r1) \<Rightarrow> More (h\<lparr>binary := v\<rparr>) r1 | None \<Rightarrow> Failed)
          else if tok = ''resolution'' then
            (case get_number r of Some (v, r1) \<Rightarrow> More (h\<lparr>h_resolution := v\<rparr>) r1 | None \<Rightarrow> Failed)
          else if tok = ''depth_levels'' then
            (case get_unsigned r of Some (v, r1) \<Rightarrow> More (h\<lparr>h_depth_levels := v\<rparr>) r1 | None \<Rightarrow> Failed)
          else if tok = ''occupancy_thres'' then
            (case get_number r of Some (v, r1) \<Rightarrow> More (h\<lparr>h_occupancy_thres := v\<rparr>) r1 | None \<Rightarrow> Failed)
          else if tok = ''free_thres'' then
            (case get_number r of Some (v, r1) \<Rightarrow> More (h\<lparr>h_free_thres := v\<rparr>) r1 | None \<Rightarrow> Failed)
          else if tok = ''compressed'' then
            (case get_bool r of Some (v, r1) \<Rightarrow> More (h\<lparr>compressed := v\<rparr>) r1 | None \<Rightarrow> Failed)
          else if tok = ''uncompressed_data_size'' then
            (case get_int r of Some (v, r1) \<Rightarrow> More (h\<lparr>uncompressed_data_size := v\<rparr>) r1 | None \<Rightarrow> Failed)
          else More h (skip_line r)
      | (Number x, r) \<Rightarrow> More h (skip_line r)
      | (Garbage, r) \<Rightarrow> More h (skip_line r))"

text \<open>
  The loop itself. Every pass that goes on has taken a token from the stream, so the stream
  bounds the number of passes: \<open>fuel\<close> counts them down from the length of the stream.
\<close>

fun readHeaderLoop :: "nat \<Rightarrow> header \<Rightarrow> chunk list \<Rightarrow> (header \<times> chunk list) option" where
  "readHeaderLoop 0 h s = None"
| "readHeaderLoop (Suc fuel) h s =
     (case readHeaderStep h s of
        Done h1 r \<Rightarrow> Some (h1, r)
      | More h1 r \<Rightarrow> readHeaderLoop fuel h1 r
      | Failed \<Rightarrow> None)"

definition readHeader :: "octree \<Rightarrow> chunk list \<Rightarrow> (header \<times> chunk list) option" where
  "readHeader t s =
     (case readHeaderLoop (Suc (length s)) initial_header s of
        None \<Rightarrow> None
      | Some (h, r) \<Rightarrow>
          if file_version h = [] then None
          else if id h = [] then None
          else if binary h \<and> \<not> binarySupport t then None
          else if 0 \<ge> h_resolution h then None
          else if 0 = h_depth_levels h then None
          else if 0 > h_occupancy_thres h then None
          else if 0 > h_free_thres h then None
          else if 0 > uncompressed_data_size h then None
          else if tree_type t \<noteq> id h then None
          else Some (h, r))"

text \<open>
  \<open>clearRecurs\<close> frees the blocks below a node, deepest first; of the node only the counters
  of the tree matter afterwards, since \<open>clear\<close> replaces the root.
\<close>

function clearRecurs :: "octree \<Rightarrow> inner_node \<Rightarrow> nat \<Rightarrow> inner_node \<times> octree" where
  "clearRecurs t inner current_depth =
     (if children inner = [] then (inner, t)
      else
        (let (inner1, t1) =
               (if 1 < current_depth then
                  fold (\<lambda>i (nd, s).
                          (let (child, s1) = clearRecurs s (children nd ! i) (current_depth - 1)
                           in (set_children nd ((children nd)[i := child]), s1)))
                    [0..<length (children inner)] (inner, t)
                else (inner, t))
         in deleteChildren t1 inner1 current_depth True))"
  by pat_completeness auto
termination
  by (relation "measure (\<lambda>(t, inner, current_depth). current_depth)") auto

declare clearRecurs.simps [simp del]

text \<open>The loop that fills \<open>nodes_sizes_\<close> and \<open>nodes_half_sizes_\<close> from index 1 on.\<close>

fun fill_sizes :: "nat \<Rightarrow> real list \<times> real list \<Rightarrow> real list \<times> real list" where
  "fill_sizes 0 (sizes, half_sizes) = (sizes, half_sizes)"
| "fill_sizes (Suc i) (sizes, half_sizes) =
     (let (sizes1, half_sizes1) = fill_sizes i (sizes, half_sizes)
      in (sizes1[Suc i := sizes1 ! i * 2], half_sizes1[Suc i := sizes1 ! i]))"

text \<open>\<open>std::vector::resize\<close>: new entries are zero.\<close>

definition resize :: "real list \<Rightarrow> nat \<Rightarrow> real list" where
  "resize xs n = take n xs @ replicate (n - length xs) 0"

datatype exception = InvalidArgument

definition clear :: "octree \<Rightarrow> real \<Rightarrow> nat \<Rightarrow> exception + octree" where
  "clear t new_resolution new_depth_levels =
     (if 21 < new_depth_levels then Inl InvalidArgument
      else
        (let (r, t1) = clearRecurs t (root_node t) (depth_levels t);
             t2 = t1\<lparr>root_node := default_node, depth_levels := new_depth_levels,
                    max_value := 2 ^ (new_depth_levels - 1)\<rparr>
         in if new_resolution \<noteq> resolution t2 then
              (let sizes0 = (resize (nodes_sizes t2) (new_depth_levels + 1))[0 := new_resolution];
                   half0 = (resize (nodes_half_sizes t2) (new_depth_levels + 1))[0 := new_resolution / 2];
                   (sizes, half_sizes) = fill_sizes new_depth_levels (sizes0, half0)
               in Inr (t2\<lparr>resolution := new_resolution, resolution_factor := 1 / new_resolution,
                         nodes_sizes := sizes, nodes_half_sizes := half_sizes\<rparr>))
            else Inr t2))"

text \<open>
  \<open>readNodesRecurs\<close> returns true on every path; the model returns the node, the tree members
  beside the root, and the rest of the stream. Below depth 2 the source would read a leaf
  block as inner nodes; the model leaves the node alone there.
\<close>

function readNodesRecurs ::
  "octree \<Rightarrow> bounding_volume \<Rightarrow> inner_node \<Rightarrow> point3 \<Rightarrow> nat \<Rightarrow> real \<Rightarrow> real \<Rightarrow> chunk list \<Rightarrow>
   inner_node \<times> octree \<times> chunk list" where
  "readNodesRecurs t bv nd center current_depth occupancy_thres_log0 free_thres_log0 s =
     (if current_depth < 2 then (nd, t, s)
      else
        (let child_depth = current_depth - 1;
             child_half_size = getNodeHalfSize t child_depth;
             (children_char, s1) = get_char s;
             child_centers = map (getChildCenter center child_half_size) [0..<8];
             child_intersects =
               map (\<lambda>i. bv_empty bv \<or> bv_intersects bv (child_centers ! i) child_half_size) [0..<8];
             (expanded, nd1, t1) = expand t nd current_depth
         in fold (\<lambda>i (inner, tr, st).
              if child_intersects ! i then
                (let child = children inner ! i
                 in if bit children_char i then
                      (let (child1, tr1, st1) =
                         (if 1 = child_depth then
                            (let child_child_half_size = getNodeHalfSize tr 0;
                                 (e, c1, tr0) = expand tr child child_depth;
                                 (c2, st0) =
                                   fold (\<lambda>j (c, str).
                                     if bv_empty bv \<or>
                                        bv_intersects bv
                                          (getChildCenter (child_centers ! i) child_child_half_size j)
                                          child_child_half_size
                                     then (let (leaf, str1) = nodeReadData (children c ! j) str
                                           in (set_children c ((children c)[j := leaf]), str1))
                                     else (c, str)) [0..<8] (c1, st)
                             in (c2, tr0, st0))
                          else readNodesRecurs tr bv child (child_centers ! i) child_depth
                                 occupancy_thres_log0 free_thres_log0 st);
                           (changed, child2, tr2) = updateNode tr1 child1 child_depth
                       in (set_children inner ((children inner)[i := child2]), tr2, st1))
                    else
                      (let (child1, st1) = nodeReadData child st;
                           (child2, tr2) = prune tr child1 child_depth False
                       in (set_children inner ((children inner)[i := child2]), tr2, st1)))
              else (inner, tr, st)) [0..<8] (nd1, t1, s1)))"
  by pat_completeness auto
termination
  by (relation "measure (\<lambda>(t, bv, nd, center, current_depth, o1, f1, s). current_depth)") auto

declare readNodesRecurs.simps [simp del]

definition readNodes ::
  "octree \<Rightarrow> bounding_volume \<Rightarrow> inner_node \<Rightarrow> nat \<Rightarrow> real \<Rightarrow> real \<Rightarrow> chunk list \<Rightarrow>
   bool \<times> inner_node \<times> octree \<times> chunk list" where
  "readNodes t bv nd current_depth occupancy_thres_log0 free_thres_log0 s =
     (let center = (0, 0, 0);
          half_size = getNodeHalfSize t current_depth
      in if \<not> bv_empty bv \<and> \<not> bv_intersects bv center half_size then (True, nd, t, s)
         else
           (let (children_char, s1) = get_char s
            in if children_char = 0 then
                 (let (nd1, s2) = nodeReadData nd s1;
                      (nd2, t2) = prune t nd1 current_depth False
                  in (True, nd2, t2, s2))
               else
                 (let (nd1, t1, s2) = readNodesRecurs t bv nd center current_depth
                                        occupancy_thres_log0 free_thres_log0 s1;
                      (changed, nd2, t2) = updateNode t1 nd1 current_depth
                  in (True, nd2, t2, s2))))"

text \<open>The binary variant is not implemented in the source: it reads nothing and succeeds.\<close>

definition readBinaryNodes ::
  "octree \<Rightarrow> bounding_volume \<Rightarrow> inner_node \<Rightarrow> nat \<Rightarrow> real \<Rightarrow> real \<Rightarrow> chunk list \<Rightarrow>
   bool \<times> inner_node \<times> octree \<times> chunk list" where
  "readBinaryNodes t bv nd current_depth occupancy_thres_log0 free_thres_log0 s = (True, nd, t, s)"

text \<open>
  \<open>readData\<close> without compression. The result is an exception of \<open>clear\<close>, or the returned
  flag and the tree.
\<close>

definition readDataPlain ::
  "octree \<Rightarrow> chunk list \<Rightarrow> bounding_volume \<Rightarrow> real \<Rightarrow> nat \<Rightarrow> real \<Rightarrow> real \<Rightarrow> bool \<Rightarrow>
   exception + bool \<times> octree" where
  "readDataPlain t s bv new_resolution new_depth_levels occupancy_thres free_thres is_binary =
     (if is_binary \<and> \<not> binarySupport t then Inr (False, t)
      else
        (case (if resolution t \<noteq> new_resolution \<or> depth_levels t \<noteq> new_depth_levels
               then (case clear t new_resolution new_depth_levels of
                       Inl e \<Rightarrow> Inl e
                     | Inr t0 \<Rightarrow> Inr (t0\<lparr>root_node := default_node\<rparr>))
               else Inr t) of
           Inl e \<Rightarrow> Inl e
         | Inr t1 \<Rightarrow>
             (let (ok, root1, t2, rest) =
                    (if is_binary
                     then readBinaryNodes t1 bv (root_node t1) (depth_levels t1)
                            (logit occupancy_thres) (logit free_thres) s
                     else readNodes t1 bv (root_node t1) (depth_levels t1)
                            (logit occupancy_thres) (logit free_thres) s)
              in Inr (ok, t2\<lparr>root_node := root1\<rparr>))))"

text \<open>\<open>readData\<close>; with \<open>compressed\<close> it decompresses and calls itself once without.\<close>

definition readData ::
  "codec \<Rightarrow> octree \<Rightarrow> chunk list \<Rightarrow> bounding_volume \<Rightarrow> real \<Rightarrow> nat \<Rightarrow> real \<Rightarrow> real \<Rightarrow> int \<Rightarrow>
   bool \<Rightarrow> bool \<Rightarrow> exception + bool \<times> octree" where
  "readData cdc t s bv new_resolution new_depth_levels occupancy_thres free_thres data_size
     is_compressed is_binary =
     (if is_binary \<and> \<not> binarySupport t then Inr (False, t)
      else if is_compressed then
        (case (if resolution t \<noteq> new_resolution \<or> depth_levels t \<noteq> new_depth_levels
               then (case clear t new_resolution new_depth_levels of
                       Inl e \<Rightarrow> Inl e
                     | Inr t0 \<Rightarrow> Inr (t0\<lparr>root_node := default_node\<rparr>))
               else Inr t) of
           Inl e \<Rightarrow> Inl e
         | Inr t1 \<Rightarrow>
             (case decompressData cdc s data_size of
                Some uncompressed_s \<Rightarrow>
                  readDataPlain t1 uncompressed_s bv new_resolution new_depth_levels
                    occupancy_thres free_thres is_binary
              | None \<Rightarrow> Inr (False, t1)))
      else readDataPlain t s bv new_resolution new_depth_levels occupancy_thres free_thres
             is_binary)"

text \<open>
  The first line and the header of a stream, as \<open>read\<close> takes them before it touches the tree.
\<close>

definition read_preamble :: "octree \<Rightarrow> chunk list \<Rightarrow> (header \<times> chunk list) option" where
  "read_preamble t s =
     (let (line, rest) = getline s
      in if take (length FILE_HEADER) line \<noteq> put_text FILE_HEADER then None
         else readHeader t rest)"

text \<open>\<open>read\<close> from a stream. It passes \<open>compressed\<close> on to \<open>readData\<close> after it has decompressed.\<close>

definition read_octree :: "codec \<Rightarrow> octree \<Rightarrow> chunk list \<Rightarrow> exception + bool \<times> octree" where
  "read_octree cdc t s =
     (case read_preamble t s of
        None \<Rightarrow> Inr (False, t)
      | Some (h, body) \<Rightarrow>
          if compressed h then
            (case decompressData cdc body (uncompressed_data_size h) of
               Some uncompressed_s \<Rightarrow>
                 readData cdc t uncompressed_s [] (h_resolution h) (h_depth_levels h)
                   (h_occupancy_thres h) (h_free_thres h) (uncompressed_data_size h)
                   (compressed h) (binary h)
             | None \<Rightarrow> Inr (False, t))
          else
            readData cdc t body [] (h_resolution h) (h_depth_levels h)
              (h_occupancy_thres h) (h_free_thres h) (uncompressed_data_size h)
              (compressed h) (binary h))"

section \<open>Well-formed trees\<close>

text \<open>
  What the types of the source guarantee of a node at a given depth, and what its pointer
  accesses need: a child block is absent or has eight entries, a leaf has none, and a node
  that is not marked collapsed has a block to descend into. A block kept under a collapsed
  node (automatic pruning disabled) is covered as well.
\<close>

fun wf_node :: "nat \<Rightarrow> inner_node \<Rightarrow> bool" where
  "wf_node 0 n = (children n = [])"
| "wf_node (Suc d) n =
     ((children n = [] \<or> length (children n) = 8) \<and>
      (\<not> all_children_same n \<longrightarrow> children n \<noteq> []) \<and>
      (\<forall>child \<in> set (children n). wf_node d child))"

text \<open>Every logit stored in a subtree, kept blocks included, lies between two bounds.\<close>

fun logits_within :: "real \<Rightarrow> real \<Rightarrow> inner_node \<Rightarrow> bool" where
  "logits_within lo hi (InnerNode l cf cu acs cs) =
     (lo \<le> l \<and> l \<le> hi \<and> (\<forall>child \<in> set cs. logits_within lo hi child))"

definition clamped_tree :: "octree \<Rightarrow> bool" where
  "clamped_tree t =
     logits_within (clamping_thres_min_log t) (clamping_thres_max_log t) (root_node t)"

definition ok_node :: "octree \<Rightarrow> nat \<Rightarrow> inner_node \<Rightarrow> bool" where
  "ok_node t d n =
     (wf_node d n \<and> logits_within (clamping_thres_min_log t) (clamping_thres_max_log t) n)"

text \<open>The members of a tree that node updates never write: all but the root, the counters
  and the change set.\<close>

definition settings :: "octree \<Rightarrow> octree" where
  "settings t =
     t\<lparr>root_node := default_node, changed_codes := {}, num_inner_nodes := 0,
       num_inner_leaf_nodes := 0, num_leaf_nodes := 0\<rparr>"

text \<open>The logit that a lookup of a code finds, from a node at a depth downwards.\<close>

definition stored_logit :: "inner_node \<Rightarrow> nat \<Rightarrow> code \<Rightarrow> real" where
  "stored_logit n d c = node_logit (deref (getNodeFrom n d c False))"

text \<open>
  What \<open>updateNode\<close> establishes on the way up: a node with children holds the maximum of
  their logits.
\<close>

fun summarised :: "nat \<Rightarrow> inner_node \<Rightarrow> bool" where
  "summarised 0 n = True"
| "summarised (Suc d) n =
     (all_children_same n \<or>
      (node_logit n = (if d = 0 then getMaxChildLogitLeaf (children n)
                       else getMaxChildLogitInner (children n)) \<and>
       (\<forall>child \<in> set (children n). summarised d child)))"

text \<open>
  A node without kept blocks: a collapsed node has no child block, every other node has its
  eight children. An unexpanded tree is so, and the update functions keep a tree so while
  automatic pruning is enabled.
\<close>

fun compact_node :: "nat \<Rightarrow> inner_node \<Rightarrow> bool" where
  "compact_node 0 n = True"
| "compact_node (Suc d) n =
     (if all_children_same n then children n = []
      else length (children n) = 8 \<and> (\<forall>child \<in> set (children n). compact_node d child))"

section \<open>Example trees\<close>

text \<open>
  A tree of two depth levels with voxel size 1, configured in log-odds: occupied above 0, free
  below -1, a hit adds 1, a miss adds -1/2, logits are clamped to [-2, 4]. Nothing has been
  inserted: the root is collapsed at logit 0.
\<close>

definition example_tree :: octree where
  "example_tree =
     \<lparr>tree_type = ''occupancy_map'', resolution = 1, resolution_factor = 1, depth_levels = 2,
      max_value = 2, occupancy_thres_log = 0, free_thres_log = - 1, prob_hit_log = 1,
      prob_miss_log = - (1 / 2), clamping_thres_min_log = - 2, clamping_thres_max_log = 4,
      bbx_limit_enabled = False, bbx_min = (0, 0, 0), bbx_max = (0, 0, 0),
      change_detection_enabled = False, changed_codes = {}, root_node = default_node,
      nodes_sizes = [1, 2, 4], nodes_half_sizes = [1 / 2, 1, 2],
      automatic_pruning_enabled = True, num_inner_nodes = 0, num_inner_leaf_nodes = 1,
      num_leaf_nodes = 0, indices = []\<rparr>"

text \<open>The same tree after one hit on the leaf with code 0.\<close>

definition hit_tree :: octree where
  "hit_tree = snd (integrateHit example_tree (Code 0 0))"

text \<open>The same tree with the whole root set to the upper clamping bound.\<close>

definition full_tree :: octree where
  "full_tree = snd (setNodeValue example_tree (Code 0 2) 4)"

text \<open>
  The state of a ray that runs east along the x axis through the cells with y and z key 2 of
  the example tree: it stands in the cell of x key \<open>x\<close>, ends in that of x key \<open>e\<close>, and
  leaves its cell at ray parameter \<open>a\<close>.
\<close>

definition east_ray :: "nat \<Rightarrow> nat \<Rightarrow> real \<Rightarrow> ray_state" where
  "east_ray x e a =
     \<lparr>current = Key x 2 2 0, ending = Key e 2 2 0, step = (1, 0, 0),
      t_delta = (1, float_max, float_max), t_max = (a, float_max, float_max)\<rparr>"

text \<open>
  The state of a ray that runs west along the x axis through the cells with y and z key 0, to
  the cell with x key 0.
\<close>

definition west_ray :: "nat \<Rightarrow> real \<Rightarrow> ray_state" where
  "west_ray x a =
     \<lparr>current = Key x 0 0 0, ending = Key 0 0 0 0, step = (- 1, 0, 0),
      t_delta = (1, float_max, float_max), t_max = (a, float_max, float_max)\<rparr>"

text \<open>A codec that rejects an empty block and passes every other block through.\<close>

definition example_codec :: codec where
  "example_codec =
     \<lparr>LZ4_compress_default = (\<lambda>s. if s = [] then None else Some s),
      LZ4_decompress_safe = (\<lambda>s n. if s = [] then None else Some s)\<rparr>"

text \<open>
  The example tree with automatic pruning disabled, after a hit on the leaf with code 0 and
  after the whole root has then been set back to 0: the root is collapsed and keeps its block.
\<close>

definition kept_tree :: octree where
  "kept_tree =
     snd (setNodeValue
            (snd (integrateHit (example_tree\<lparr>automatic_pruning_enabled := False\<rparr>) (Code 0 0)))
            (Code 0 2) 0)"

section \<open>Properties\<close>

subsection \<open>Field access and frame lemmas\<close>

lemma set_logit_sel [simp]:
  "node_logit (set_logit n v) = v" "children (set_logit n v) = children n"
  "all_children_same (set_logit n v) = all_children_same n"
  "contains_free (set_logit n v) = contains_free n"
  "contains_unknown (set_logit n v) = contains_unknown n"
  by (simp_all add: set_logit_def)

lemma set_children_sel [simp]:
  "node_logit (set_children n cs) = node_logit n" "children (set_children n cs) = cs"
  "all_children_same (set_children n cs) = all_children_same n"
  "contains_free (set_children n cs) = contains_free n"
  "contains_unknown (set_children n cs) = contains_unknown n"
  by (simp_all add: set_children_def)

lemma set_all_children_same_sel [simp]:
  "node_logit (set_all_children_same n b) = node_logit n"
  "children (set_all_children_same n b) = children n"
  "all_children_same (set_all_children_same n b) = b"
  "contains_free (set_all_children_same n b) = contains_free n"
  "contains_unknown (set_all_children_same n b) = contains_unknown n"
  by (simp_all add: set_all_children_same_def)

lemma set_flags_sel [simp]:
  "node_logit (set_flags n cf cu) = node_logit n" "children (set_flags n cf cu) = children n"
  "all_children_same (set_flags n cf cu) = all_children_same n"
  "contains_free (set_flags n cf cu) = cf"
  "contains_unknown (set_flags n cf cu) = cu"
  by (simp_all add: set_flags_def)

lemma default_node_sel [simp]:
  "node_logit default_node = 0" "children default_node = []"
  "all_children_same default_node"
  by (simp_all add: default_node_def)

lemma logits_within_sel:
  "logits_within lo hi n =
     (lo \<le> node_logit n \<and> node_logit n \<le> hi \<and> (\<forall>child \<in> set (children n). logits_within lo hi child))"
  by (cases n) simp

lemma settings_fields:
  assumes "settings t' = settings t"
  shows "clamping_thres_min_log t' = clamping_thres_min_log t"
    and "clamping_thres_max_log t' = clamping_thres_max_log t"
    and "automatic_pruning_enabled t' = automatic_pruning_enabled t"
    and "occupancy_thres_log t' = occupancy_thres_log t"
    and "free_thres_log t' = free_thres_log t"
    and "change_detection_enabled t' = change_detection_enabled t"
    and "depth_levels t' = depth_levels t"
proof -
  have "clamping_thres_min_log (settings t') = clamping_thres_min_log (settings t)"
    "clamping_thres_max_log (settings t') = clamping_thres_max_log (settings t)"
    "automatic_pruning_enabled (settings t') = automatic_pruning_enabled (settings t)"
    "occupancy_thres_log (settings t') = occupancy_thres_log (settings t)"
    "free_thres_log (settings t') = free_thres_log (settings t)"
    "change_detection_enabled (settings t') = change_detection_enabled (settings t)"
    "depth_levels (settings t') = depth_levels (settings t)"
    using assms by simp_all
  then show "clamping_thres_min_log t' = clamping_thres_min_log t"
    and "clamping_thres_max_log t' = clamping_thres_max_log t"
    and "automatic_pruning_enabled t' = automatic_pruning_enabled t"
    and "occupancy_thres_log t' = occupancy_thres_log t"
    and "free_thres_log t' = free_thres_log t"
    and "change_detection_enabled t' = change_detection_enabled t"
    and "depth_levels t' = depth_levels t"
    by (simp_all add: settings_def)
qed


lemma settings_createChildren: "settings (snd (snd (createChildren t n d))) = settings t"
  by (simp add: createChildren_def settings_def)

lemma fold_invariant:
  assumes "\<And>x s. x \<in> set xs \<Longrightarrow> P s \<Longrightarrow> P (f x s)" and "P s"
  shows "P (fold f xs s)"
  using assms by (induction xs arbitrary: s) auto

lemma settings_deleteChildren: "settings (snd (deleteChildren t n d m)) = settings t"
proof (induction t n d m rule: deleteChildren.induct)
  case (1 t inner manual_pruning)
  then show ?case by simp
next
  case (2 t inner child_depth manual_pruning)
  show ?case
  proof (cases "children (set_all_children_same inner True) = [] \<or> (\<not> manual_pruning \<and> \<not> automatic_pruning_enabled t)")
    case True
    then show ?thesis by (simp add: Let_def)
  next
    case False
    show ?thesis
    proof (cases "child_depth = 0")
      case True
      with False show ?thesis by (simp add: Let_def settings_def)
    next
      case nz: False
      have "settings (fold (\<lambda>child s. snd (deleteChildren s child child_depth manual_pruning))
                 (children (set_all_children_same inner True)) t) = settings t"
        by (rule fold_invariant[where P = "\<lambda>s. settings s = settings t"])
           (use 2 False nz in auto)
      with False nz show ?thesis by (simp add: Let_def settings_def)
    qed
  qed
qed


lemma settings_expand: "settings (snd (snd (expand t n d))) = settings t"
  by (simp add: expand_def Let_def split_beta settings_createChildren)

lemma settings_prune: "settings (snd (prune t n d m)) = settings t"
  by (simp add: prune_def split_beta settings_deleteChildren)

lemma settings_updateNodeLeaf: "settings (snd (snd (updateNodeLeaf t n cs d))) = settings t"
  by (simp add: updateNodeLeaf_def Let_def split_beta settings_prune)

lemma settings_updateNodeInner: "settings (snd (snd (updateNodeInner t n cs d))) = settings t"
  by (simp add: updateNodeInner_def Let_def split_beta settings_prune)

lemma settings_updateNode: "settings (snd (snd (updateNode t n d))) = settings t"
  by (simp add: updateNode_def settings_updateNodeLeaf settings_updateNodeInner)

subsection \<open>Well-formed, clamped nodes\<close>

lemma ok_node_settings:
  assumes "settings t' = settings t"
  shows "ok_node t' d n = ok_node t d n"
  using settings_fields(1,2)[OF assms] by (simp add: ok_node_def)

lemma wf_children_length:
  "wf_node d n \<Longrightarrow> children n \<noteq> [] \<Longrightarrow> length (children n) = 8"
  by (cases d) auto

lemma wf_node_child:
  "wf_node (Suc d) n \<Longrightarrow> child \<in> set (children n) \<Longrightarrow> wf_node d child"
  by auto

lemma ok_node_child:
  assumes "ok_node t (Suc d) n" and "child \<in> set (children n)"
  shows "ok_node t d child"
  using assms by (auto simp: ok_node_def logits_within_sel[of _ _ n])

lemma ok_nodeI:
  assumes "children n = [] \<or> length (children n) = 8"
    and "\<not> all_children_same n \<longrightarrow> children n \<noteq> []"
    and "clamping_thres_min_log t \<le> node_logit n" and "node_logit n \<le> clamping_thres_max_log t"
    and "\<And>child. child \<in> set (children n) \<Longrightarrow> ok_node t d child"
  shows "ok_node t (Suc d) n"
  using assms by (auto simp: ok_node_def logits_within_sel[of _ _ n])

lemma ok_node_logit:
  "ok_node t d n \<Longrightarrow> clamping_thres_min_log t \<le> node_logit n \<and> node_logit n \<le> clamping_thres_max_log t"
  by (simp add: ok_node_def logits_within_sel[of _ _ n])

lemma ok_node_shape:
  "ok_node t (Suc d) n \<Longrightarrow> (children n = [] \<or> length (children n) = 8) \<and> (\<not> all_children_same n \<longrightarrow> children n \<noteq> [])"
  by (simp add: ok_node_def)

lemma ok_leaf_children: "ok_node t 0 n \<Longrightarrow> children n = []"
  by (simp add: ok_node_def)

lemma ok_leafI:
  "children n = [] \<Longrightarrow> clamping_thres_min_log t \<le> node_logit n \<Longrightarrow> node_logit n \<le> clamping_thres_max_log t
   \<Longrightarrow> ok_node t 0 n"
  by (simp add: ok_node_def logits_within_sel[of _ _ n])

lemma ok_node_grandchildren:
  assumes "ok_node t d n"
  shows "ok_node t d (InnerNode l cf cu True (children n)) =
         (clamping_thres_min_log t \<le> l \<and> l \<le> clamping_thres_max_log t)"
proof (cases d)
  case 0
  with assms show ?thesis by (auto simp: ok_node_def)
next
  case (Suc d')
  with assms show ?thesis
    by (auto simp: ok_node_def logits_within_sel[of _ _ n])
qed

lemma ok_set_logit:
  assumes "ok_node t d n" "clamping_thres_min_log t \<le> l" "l \<le> clamping_thres_max_log t"
  shows "ok_node t d (set_logit n l)"
proof (cases d)
  case 0
  with assms show ?thesis by (auto simp: ok_node_def logits_within_sel[of _ _ "set_logit n l"] logits_within_sel[of _ _ n])
next
  case (Suc d')
  with assms show ?thesis
    by (auto simp: ok_node_def logits_within_sel[of _ _ "set_logit n l"] logits_within_sel[of _ _ n])
qed

lemma ok_set_flags: "ok_node t d (set_flags n cf cu) = ok_node t d n"
  by (cases d) (auto simp: ok_node_def logits_within_sel[of _ _ "set_flags n cf cu"] logits_within_sel[of _ _ n])

lemma ok_default_child:
  assumes "clamping_thres_min_log t \<le> l" "l \<le> clamping_thres_max_log t"
  shows "ok_node t d (InnerNode l cf cu True [])"
  using assms by (cases d) (auto simp: ok_node_def)

lemma children_expand:
  "children (fst (snd (expand t n d))) =
     (if \<not> all_children_same n then children n
      else if 1 = d then
        map (\<lambda>child. set_logit child (node_logit n))
          (if children n \<noteq> [] then children n else replicate 8 default_node)
      else
        map (\<lambda>child. InnerNode (node_logit n) (contains_free n) (contains_unknown n) True (children child))
          (if children n \<noteq> [] then children n
           else replicate 8 (set_flags default_node (isFree t default_node) (isUnknown t default_node))))"
  by (simp add: expand_def createChildren_def split_beta)

lemma node_expand:
  "node_logit (fst (snd (expand t n d))) = node_logit n"
  "all_children_same (fst (snd (expand t n d))) =
     (all_children_same n \<and> children n \<noteq> [])"
  by (auto simp: expand_def createChildren_def split_beta)

lemma ok_expand:
  assumes ok: "ok_node t (Suc d) n"
  shows "ok_node t (Suc d) (fst (snd (expand t n (Suc d)))) \<and>
         length (children (fst (snd (expand t n (Suc d))))) = 8"
proof -
  let ?n' = "fst (snd (expand t n (Suc d)))"
  from ok have rng: "clamping_thres_min_log t \<le> node_logit n" "node_logit n \<le> clamping_thres_max_log t"
    by (simp_all add: ok_node_logit)
  from ok have shape: "children n = [] \<or> length (children n) = 8"
    "\<not> all_children_same n \<longrightarrow> children n \<noteq> []"
    by (simp_all add: ok_node_shape)
  have len: "length (children ?n') = 8"
    using shape by (auto simp: children_expand)
  have kids: "ok_node t d child" if "child \<in> set (children ?n')" for child
  proof (cases "all_children_same n")
    case False
    with that have "child \<in> set (children n)" by (simp add: children_expand)
    with ok show ?thesis by (rule ok_node_child)
  next
    case True
    show ?thesis
    proof (cases "children n = []")
      case fresh: True
      with True that rng show ?thesis
        by (cases d) (auto simp: children_expand ok_node_def set_logit_def default_node_def set_flags_def)
    next
      case kept: False
      with True that obtain c0 where c0: "c0 \<in> set (children n)"
        and ch: "child = (if 1 = Suc d then set_logit c0 (node_logit n)
                 else InnerNode (node_logit n) (contains_free n) (contains_unknown n) True (children c0))"
        by (auto simp: children_expand split: if_splits)
      from ok c0 have "ok_node t d c0" by (rule ok_node_child)
      with ch rng show ?thesis
        by (auto simp: ok_set_logit ok_node_grandchildren)
    qed
  qed
  have "ok_node t (Suc d) ?n'"
    by (rule ok_nodeI) (use len kids rng in \<open>auto simp: node_expand\<close>)
  with len show ?thesis by simp
qed

lemma fst_deleteChildren:
  "fst (deleteChildren t n d m) =
     (if d = 0 \<or> children n = [] \<or> (\<not> m \<and> \<not> automatic_pruning_enabled t)
      then set_all_children_same n True
      else set_children (set_all_children_same n True) [])"
  by (cases d) (simp_all add: Let_def)

lemma ok_set_acs:
  assumes "ok_node t d n"
  shows "ok_node t d (set_all_children_same n True)"
  using assms
  by (cases d) (auto simp: ok_node_def logits_within_sel[of _ _ "set_all_children_same n True"] logits_within_sel[of _ _ n])

lemma ok_drop_children:
  assumes "ok_node t d n"
  shows "ok_node t d (set_children (set_all_children_same n True) [])"
  using assms
  by (cases d) (auto simp: ok_node_def logits_within_sel[of _ _ "set_children _ _"] logits_within_sel[of _ _ n])

lemma ok_deleteChildren:
  "ok_node t d n \<Longrightarrow> ok_node t d (fst (deleteChildren t n d m))"
  by (simp add: fst_deleteChildren ok_set_acs ok_drop_children)

lemma ok_prune: "ok_node t d n \<Longrightarrow> ok_node t d (fst (prune t n d m))"
  by (simp add: prune_def split_beta ok_set_flags ok_deleteChildren)

lemma fold_max_props:
  fixes cs :: "inner_node list"
  defines "f \<equiv> (\<lambda>child m. if m < node_logit child then node_logit child else m)"
  shows "m \<le> fold f cs m \<and> (\<forall>c \<in> set cs. node_logit c \<le> fold f cs m) \<and>
         (fold f cs m = m \<or> fold f cs m \<in> node_logit ` set cs)"
proof (induction cs arbitrary: m)
  case Nil
  then show ?case by simp
next
  case (Cons c cs)
  from Cons[of "f c m"] show ?case
    by (auto simp: f_def split: if_splits)
qed

lemma getMaxChildLogitInner_range:
  assumes "cs \<noteq> []" and "\<forall>c \<in> set cs. lo \<le> node_logit c \<and> node_logit c \<le> hi"
    and "float_lowest \<le> lo"
  shows "lo \<le> getMaxChildLogitInner cs \<and> getMaxChildLogitInner cs \<le> hi"
proof -
  let ?r = "getMaxChildLogitInner cs"
  from assms(1) obtain c where c: "c \<in> set cs" by (cases cs) auto
  have p: "\<forall>c \<in> set cs. node_logit c \<le> ?r" "?r = float_lowest \<or> ?r \<in> node_logit ` set cs"
    using fold_max_props[of float_lowest cs] by (simp_all add: getMaxChildLogitInner_def)
  from p(1) c assms(2) have "lo \<le> ?r" by force
  moreover from p(2) have "?r \<le> hi"
  proof
    assume "?r = float_lowest"
    with assms c show ?thesis by force
  next
    assume "?r \<in> node_logit ` set cs"
    with assms(2) show ?thesis by auto
  qed
  ultimately show ?thesis by simp
qed

lemma getMaxChildLogitLeaf_range:
  assumes "cs \<noteq> []" and "\<forall>c \<in> set cs. lo \<le> node_logit c \<and> node_logit c \<le> hi"
  shows "lo \<le> getMaxChildLogitLeaf cs \<and> getMaxChildLogitLeaf cs \<le> hi"
proof -
  let ?r = "getMaxChildLogitLeaf cs"
  from assms(1) have c: "cs ! 0 \<in> set cs" by (cases cs) auto
  have p: "node_logit (cs ! 0) \<le> ?r" "?r = node_logit (cs ! 0) \<or> ?r \<in> node_logit ` set cs"
    using fold_max_props[of "node_logit (cs ! 0)" cs] by (simp_all add: getMaxChildLogitLeaf_def)
  from p(1) c assms(2) have "lo \<le> ?r" by force
  moreover from p(2) c assms(2) have "?r \<le> hi" by auto
  ultimately show ?thesis by simp
qed

lemma ok_children_logits:
  assumes "ok_node t (Suc d) n"
  shows "\<forall>c \<in> set (children n). clamping_thres_min_log t \<le> node_logit c \<and> node_logit c \<le> clamping_thres_max_log t"
  using ok_node_child[OF assms] ok_node_logit by blast

lemma ok_updateNodeLeaf:
  assumes ok: "ok_node t (Suc d) n" and len: "length (children n) = 8"
  shows "ok_node t (Suc d) (fst (snd (updateNodeLeaf t n (children n) (Suc d))))"
proof -
  let ?cs = "children n"
  have kids: "\<forall>c \<in> set ?cs. clamping_thres_min_log t \<le> node_logit c \<and> node_logit c \<le> clamping_thres_max_log t"
    using ok by (rule ok_children_logits)
  from len have ne: "?cs \<noteq> []" and c0: "?cs ! 0 \<in> set ?cs" by auto
  show ?thesis
  proof (cases "isNodeCollapsibleLeaf ?cs")
    case True
    have "ok_node t (Suc d) (set_logit n (node_logit (?cs ! 0)))"
      using ok kids c0 by (intro ok_set_logit) auto
    then have "ok_node t (Suc d) (fst (prune t (set_logit n (node_logit (?cs ! 0))) (Suc d) False))"
      by (rule ok_prune)
    with True show ?thesis by (simp add: updateNodeLeaf_def split_beta)
  next
    case False
    have "ok_node t (Suc d) (set_logit n (getMaxChildLogitLeaf ?cs))"
      using ok getMaxChildLogitLeaf_range[OF ne kids] by (intro ok_set_logit) auto
    with False ok show ?thesis
      by (simp add: updateNodeLeaf_def Let_def ok_set_flags)
  qed
qed

lemma ok_updateNodeInner:
  assumes ok: "ok_node t (Suc d) n" and len: "length (children n) = 8"
    and low: "float_lowest \<le> clamping_thres_min_log t"
  shows "ok_node t (Suc d) (fst (snd (updateNodeInner t n (children n) (Suc d))))"
proof -
  let ?cs = "children n"
  have kids: "\<forall>c \<in> set ?cs. clamping_thres_min_log t \<le> node_logit c \<and> node_logit c \<le> clamping_thres_max_log t"
    using ok by (rule ok_children_logits)
  from len have ne: "?cs \<noteq> []" and c0: "?cs ! 0 \<in> set ?cs" by auto
  show ?thesis
  proof (cases "isNodeCollapsibleInner ?cs")
    case True
    have "ok_node t (Suc d) (set_logit n (node_logit (?cs ! 0)))"
      using ok kids c0 by (intro ok_set_logit) auto
    then have "ok_node t (Suc d) (fst (prune t (set_logit n (node_logit (?cs ! 0))) (Suc d) False))"
      by (rule ok_prune)
    with True show ?thesis by (simp add: updateNodeInner_def split_beta)
  next
    case False
    have "ok_node t (Suc d) (set_logit n (getMaxChildLogitInner ?cs))"
      using ok getMaxChildLogitInner_range[OF ne kids low] by (intro ok_set_logit) auto
    with False ok show ?thesis
      by (simp add: updateNodeInner_def Let_def ok_set_flags)
  qed
qed

lemma ok_updateNode:
  assumes "ok_node t (Suc d) n" and "length (children n) = 8"
    and "float_lowest \<le> clamping_thres_min_log t"
  shows "ok_node t (Suc d) (fst (snd (updateNode t n (Suc d))))"
  using ok_updateNodeLeaf[OF assms(1,2)] ok_updateNodeInner[OF assms]
  by (auto simp: updateNode_def)

lemma ok_replace_child:
  assumes "ok_node t (Suc d) n" and "ok_node t d child" and "length (children n) = 8"
  shows "ok_node t (Suc d) (set_children n ((children n)[i := child]))"
proof (rule ok_nodeI)
  fix c assume "c \<in> set (children (set_children n ((children n)[i := child])))"
  then have "c \<in> set ((children n)[i := child])" by simp
  then have "c = child \<or> c \<in> set (children n)"
    using set_update_subset_insert[of "children n" i child] by auto
  with assms show "ok_node t d c" using ok_node_child by blast
qed (use assms ok_node_shape[OF assms(1)] ok_node_logit[OF assms(1)] in auto)

subsection \<open>The recursive update keeps nodes well-formed and clamped\<close>

lemma std_clamp_range: "lo \<le> hi \<Longrightarrow> lo \<le> std_clamp v lo hi \<and> std_clamp v lo hi \<le> hi"
  by (simp add: std_clamp_def)

lemma settings_note_change: "settings (note_change t c) = settings t"
  by (simp add: note_change_def settings_def)

lemma ok_updateNodeValueRecurs:
  assumes "float_lowest \<le> clamping_thres_min_log t"
    and "clamping_thres_min_log t \<le> clamping_thres_max_log t"
    and "ok_node t d nd"
  shows "ok_node t d (fst (snd (updateNodeValueRecurs t c v nd d sv))) \<and>
         settings (snd (snd (updateNodeValueRecurs t c v nd d sv))) = settings t"
  using assms
proof (induction d arbitrary: t c nd)
  case 0
  let ?l = "if sv then std_clamp v (clamping_thres_min_log t) (clamping_thres_max_log t)
            else std_clamp (node_logit nd + v) (clamping_thres_min_log t) (clamping_thres_max_log t)"
  have res: "updateNodeValueRecurs t c v nd 0 sv =
               ((Node (Some (set_logit nd ?l)) c, True), set_logit nd ?l, note_change t c)"
    by (subst updateNodeValueRecurs.simps) (simp add: Let_def)
  have "ok_node t 0 (set_logit nd ?l)"
    using 0 std_clamp_range[OF 0(2)] by (intro ok_set_logit) auto
  then show ?case by (simp add: res settings_note_change)
next
  case (Suc d)
  let ?lo = "clamping_thres_min_log t" and ?hi = "clamping_thres_max_log t"
  show ?case
  proof (cases "getDepth c < Suc d")
    case True
    obtain e inner1 t1 where ex: "expand t nd (Suc d) = (e, inner1, t1)"
      by (metis prod_cases3)
    have i1: "ok_node t (Suc d) inner1" "length (children inner1) = 8"
      using ok_expand[OF Suc.prems(3)] by (simp_all add: ex)
    have s1: "settings t1 = settings t"
      using settings_expand[of t nd "Suc d"] by (simp add: ex)
    let ?idx = "getChildIdx c d"
    have idx: "?idx < 8" by (simp add: getChildIdx_def)
    with i1 have "children inner1 ! ?idx \<in> set (children inner1)" by simp
    with i1(1) have okc: "ok_node t d (children inner1 ! ?idx)" by (rule ok_node_child)
    obtain child changed cn t2 where
      rc: "updateNodeValueRecurs t1 c v (children inner1 ! ?idx) d sv = ((child, changed), cn, t2)"
      by (metis prod_cases3 surj_pair)
    have "ok_node t1 d cn \<and> settings t2 = settings t1"
      using Suc.IH[of t1 "children inner1 ! ?idx" c] Suc.prems(1,2) okc
      by (simp add: rc settings_fields[OF s1] ok_node_settings[OF s1])
    then have cn: "ok_node t d cn" and s2: "settings t2 = settings t"
      by (simp_all add: s1 ok_node_settings[OF s1])
    define inner2 where "inner2 = set_children inner1 ((children inner1)[?idx := cn])"
    have i2: "ok_node t (Suc d) inner2" "length (children inner2) = 8"
      using ok_replace_child[OF i1(1) cn i1(2)] i1(2) by (simp_all add: inner2_def)
    obtain ch2 inner3 t3 where un: "updateNode t2 inner2 (Suc d) = (ch2, inner3, t3)"
      by (metis prod_cases3)
    have "ok_node t2 (Suc d) (fst (snd (updateNode t2 inner2 (Suc d))))"
      using i2 Suc.prems(1) by (intro ok_updateNode) (simp_all add: ok_node_settings[OF s2] settings_fields[OF s2])
    then have i3: "ok_node t (Suc d) inner3" by (simp add: un ok_node_settings[OF s2])
    have s3: "settings t3 = settings t"
      using settings_updateNode[of t2 inner2 "Suc d"] by (simp add: un s2)
    have res: "updateNodeValueRecurs t c v nd (Suc d) sv =
                 (if changed then ((child, ch2), inner3,
                                   (if ch2 then note_change t3 (toDepth c (Suc d)) else t3))
                  else ((child, changed), inner2, t2))"
      using True
      by (subst updateNodeValueRecurs.simps) (simp add: ex rc un[unfolded inner2_def] inner2_def Let_def)
    show ?thesis
      by (simp add: res i2 i3 s2 s3 settings_note_change)
  next
    case deep: False
    show ?thesis
    proof (cases sv)
      case True
      define nd1 where "nd1 = set_logit nd (std_clamp v ?lo ?hi)"
      have n1: "ok_node t (Suc d) nd1"
        unfolding nd1_def using Suc.prems std_clamp_range[OF Suc.prems(2)] by (intro ok_set_logit) auto
      obtain p1 tp where pr: "prune t nd1 (Suc d) False = (p1, tp)"
        by (cases "prune t nd1 (Suc d) False")
      have p1: "ok_node t (Suc d) p1" "settings tp = settings t"
        using ok_prune[OF n1, of False] settings_prune[of t nd1 "Suc d" False] by (simp_all add: pr)
      have res: "updateNodeValueRecurs t c v nd (Suc d) sv = ((Node (Some p1) c, True), p1, note_change tp c)"
        using deep True
        by (subst updateNodeValueRecurs.simps) (simp add: Let_def nd1_def[symmetric] pr)
      show ?thesis by (simp add: res p1 settings_note_change)
    next
      case nsv: False
      define nd1 where "nd1 = set_logit nd (std_clamp (node_logit nd + v) ?lo ?hi)"
      have n1: "ok_node t (Suc d) nd1"
        unfolding nd1_def using Suc.prems std_clamp_range[OF Suc.prems(2)] by (intro ok_set_logit) auto
      define F where "F = (\<lambda>child_idx (inner, s).
                        (let (r, child_node, s1) =
                           updateNodeValueRecurs s (getChildCode c child_idx) v
                             (children inner ! child_idx) (Suc d - 1) sv
                         in (set_children inner ((children inner)[child_idx := child_node]), s1)))"
      note raw = updateNodeValueRecurs.simps[of t c v nd "Suc d" sv, folded F_def]
      define P where "P = (\<lambda>(inner, s). ok_node t (Suc d) inner \<and> length (children inner) = 8 \<and>
                             settings s = settings t)"
      have step: "P (F i st)" if "i \<in> set [0..<8]" and "P st" for i st
      proof -
        obtain inner s where st: "st = (inner, s)" by (cases st)
        from that(2) have inv: "ok_node t (Suc d) inner" "length (children inner) = 8" "settings s = settings t"
          by (simp_all add: P_def st)
        from that(1) inv have "children inner ! i \<in> set (children inner)" by simp
        with inv(1) have okc: "ok_node t d (children inner ! i)" by (rule ok_node_child)
        obtain r cn s1 where
          rc: "updateNodeValueRecurs s (getChildCode c i) v (children inner ! i) d sv = (r, cn, s1)"
          by (metis prod_cases3)
        have "ok_node s d cn \<and> settings s1 = settings s"
          using Suc.IH[of s "children inner ! i" "getChildCode c i"] Suc.prems(1,2) okc
          by (simp add: rc settings_fields[OF inv(3)] ok_node_settings[OF inv(3)])
        then have cn: "ok_node t d cn" and s1: "settings s1 = settings t"
          by (simp_all add: inv(3) ok_node_settings[OF inv(3)])
        have "F i st = (set_children inner ((children inner)[i := cn]), s1)"
          by (simp add: F_def st rc)
        with ok_replace_child[OF inv(1) cn inv(2)] inv(2) s1 show ?thesis
          by (simp add: P_def)
      qed
      have foldP: "P (fold F [0..<8] (nd1, t))" if "hasChildren nd1"
      proof (rule fold_invariant[where P = P])
        from that n1 have "length (children nd1) = 8"
          using ok_node_shape[OF n1] by (auto simp: hasChildren_def)
        with n1 show "P (nd1, t)" by (simp add: P_def)
      qed (rule step)
      obtain inner1 t1 where fd: "fold F [0..<8] (nd1, t) = (inner1, t1)"
        by (cases "fold F [0..<8] (nd1, t)")
      obtain ch2 inner2 t3 where un: "updateNode t1 inner1 (Suc d) = (ch2, inner2, t3)"
        by (metis prod_cases3)
      obtain p1 tp where pr: "prune t nd1 (Suc d) False = (p1, tp)"
        by (cases "prune t nd1 (Suc d) False")
      have p1: "ok_node t (Suc d) p1" "settings tp = settings t"
        using ok_prune[OF n1, of False] settings_prune[of t nd1 "Suc d" False] by (simp_all add: pr)
      define nd2 where "nd2 = (if \<not> isOccupied t nd1 then p1 else if hasChildren nd1 then inner2 else nd1)"
      define t2 where "t2 = (if \<not> isOccupied t nd1 then tp else if hasChildren nd1 then t3 else t)"
      have res: "updateNodeValueRecurs t c v nd (Suc d) sv = ((Node (Some nd2) c, True), nd2, note_change t2 c)"
        unfolding raw using deep nsv
        by (simp add: Let_def nd1_def[symmetric] fd un pr nd2_def t2_def)
      have "ok_node t (Suc d) nd2 \<and> settings t2 = settings t"
      proof (cases "isOccupied t nd1 \<and> hasChildren nd1")
        case True
        with foldP have inv: "ok_node t (Suc d) inner1" "length (children inner1) = 8" "settings t1 = settings t"
          by (simp_all add: P_def fd)
        have "ok_node t1 (Suc d) (fst (snd (updateNode t1 inner1 (Suc d))))"
          using inv Suc.prems(1)
          by (intro ok_updateNode) (simp_all add: ok_node_settings[OF inv(3)] settings_fields[OF inv(3)])
        then have "ok_node t (Suc d) inner2" by (simp add: un ok_node_settings[OF inv(3)])
        moreover have "settings t3 = settings t"
          using settings_updateNode[of t1 inner1 "Suc d"] by (simp add: un inv(3))
        ultimately show ?thesis using True by (simp add: nd2_def t2_def)
      next
        case False
        with p1 n1 show ?thesis by (auto simp: nd2_def t2_def)
      qed
      then show ?thesis by (simp add: res settings_note_change)
    qed
  qed
qed

subsection \<open>Clamping invariant\<close>

lemma clamped_tree_ok:
  "wf_node (depth_levels t) (root_node t) \<and> clamped_tree t \<longleftrightarrow> ok_node t (depth_levels t) (root_node t)"
  by (auto simp: ok_node_def clamped_tree_def)

lemma ok_root_update:
  assumes "ok_node t (depth_levels t) (root_node t)" and "float_lowest \<le> clamping_thres_min_log t"
  shows "ok_node t (depth_levels t)
           (fst (snd (updateNodeValueRecurs t c v (root_node t) (depth_levels t) sv))) \<and>
         settings (snd (snd (updateNodeValueRecurs t c v (root_node t) (depth_levels t) sv))) = settings t"
proof -
  from assms(1) have "clamping_thres_min_log t \<le> clamping_thres_max_log t"
    using ok_node_logit[OF assms(1)] by simp
  with assms show ?thesis by (intro ok_updateNodeValueRecurs)
qed

lemma ok_with_root:
  assumes "settings t1 = settings t" and "ok_node t (depth_levels t) r"
  shows "ok_node (t1\<lparr>root_node := r\<rparr>) (depth_levels t1) r"
  using assms settings_fields(1,2,7)[OF assms(1)] by (simp add: ok_node_def)

lemma ok_updateNodeValue:
  assumes "ok_node t (depth_levels t) (root_node t)" and "float_lowest \<le> clamping_thres_min_log t"
  shows "ok_node (snd (updateNodeValue t c v)) (depth_levels (snd (updateNodeValue t c v)))
           (root_node (snd (updateNodeValue t c v)))"
  using assms ok_root_update[OF assms, of c v False]
  by (simp add: updateNodeValue_def Let_def split_beta ok_with_root)

lemma ok_setNodeValue:
  assumes "ok_node t (depth_levels t) (root_node t)" and "float_lowest \<le> clamping_thres_min_log t"
  shows "ok_node (snd (setNodeValue t c v)) (depth_levels (snd (setNodeValue t c v)))
           (root_node (snd (setNodeValue t c v)))"
  using assms
    ok_root_update[OF assms, of c "std_clamp v (clamping_thres_min_log t) (clamping_thres_max_log t)" True]
  by (simp add: setNodeValue_def Let_def split_beta ok_with_root)

text \<open>
  Claim C4: in a tree in which every stored logit lies between the two clamping bounds, every
  stored logit still lies between them after \<open>updateNodeValue\<close>, \<open>setNodeValue\<close>,
  \<open>integrateHit\<close> or \<open>integrateMiss\<close>. The tree is a well-formed one (child blocks of
  eight, a block under every node not marked collapsed), and the lower bound is a
  single-precision value, hence not below \<open>float_lowest\<close>, from which the summary of inner
  children starts.
\<close>

theorem clamping_invariant:
  assumes "wf_node (depth_levels t) (root_node t)" and "clamped_tree t"
    and "float_lowest \<le> clamping_thres_min_log t"
  shows "clamped_tree (snd (updateNodeValue t c v)) \<and>
         clamped_tree (snd (setNodeValue t c v)) \<and>
         clamped_tree (snd (integrateHit t c)) \<and>
         clamped_tree (snd (integrateMiss t c))"
proof -
  from assms(1,2) have ok: "ok_node t (depth_levels t) (root_node t)"
    by (simp add: clamped_tree_ok[symmetric])
  have "clamped_tree (snd (updateNodeValue t c u))" for u
    using ok_updateNodeValue[OF ok assms(3), of c u] by (simp add: clamped_tree_ok[symmetric])
  moreover have "clamped_tree (snd (setNodeValue t c v))"
    using ok_setNodeValue[OF ok assms(3), of c v] by (simp add: clamped_tree_ok[symmetric])
  ultimately show ?thesis by (simp add: integrateHit_def integrateMiss_def)
qed

theorem clamping_invariant_witness:
  "wf_node (depth_levels example_tree) (root_node example_tree) \<and> clamped_tree example_tree \<and>
   float_lowest \<le> clamping_thres_min_log example_tree \<and>
   clamped_tree (snd (updateNodeValue example_tree (Code 0 0) 5)) \<and>
   clamped_tree (snd (setNodeValue example_tree (Code 0 1) 7)) \<and>
   clamped_tree (snd (integrateHit example_tree (Code 0 0))) \<and>
   clamped_tree (snd (integrateMiss example_tree (Code 0 0)))"
proof -
  have h: "wf_node (depth_levels example_tree) (root_node example_tree)" "clamped_tree example_tree"
    "float_lowest \<le> clamping_thres_min_log example_tree"
    by code_simp+
  from clamping_invariant[OF h] h show ?thesis by blast
qed

lemma wf_preserved:
  assumes "wf_node (depth_levels t) (root_node t)" and "clamped_tree t"
    and "float_lowest \<le> clamping_thres_min_log t"
  shows "wf_node (depth_levels (snd (updateNodeValue t c v))) (root_node (snd (updateNodeValue t c v)))"
    and "wf_node (depth_levels (snd (setNodeValue t c v))) (root_node (snd (setNodeValue t c v)))"
proof -
  from assms(1,2) have ok: "ok_node t (depth_levels t) (root_node t)"
    by (simp add: clamped_tree_ok[symmetric])
  show "wf_node (depth_levels (snd (updateNodeValue t c v))) (root_node (snd (updateNodeValue t c v)))"
    using ok_updateNodeValue[OF ok assms(3), of c v] by (simp add: clamped_tree_ok[symmetric])
  show "wf_node (depth_levels (snd (setNodeValue t c v))) (root_node (snd (setNodeValue t c v)))"
    using ok_setNodeValue[OF ok assms(3), of c v] by (simp add: clamped_tree_ok[symmetric])
qed

subsection \<open>Sensor model setters\<close>

lemma setProbMiss_stores_hit_logit:
  "getProbMissLog (setProbMiss t p) = logit (prob_hit_log t)"
  by (simp add: getProbMissLog_def setProbMiss_def setProbMissLog_def)

text \<open>
  Claim C7: for every probability \<open>p\<close> in (0,1), \<open>setProbMiss(p)\<close> stores \<open>logit(p)\<close>, so that
  \<open>getProbMissLog()\<close> returns \<open>logit(p)\<close> afterwards. The source passes the stored hit log-odds
  to \<open>logit\<close> instead of \<open>p\<close>: on a tree whose hit log-odds are 1/2, \<open>setProbMiss(2/5)\<close> stores
  \<open>logit(1/2) = 0\<close>, which is not \<open>logit(2/5)\<close>.
\<close>

theorem setProbMiss_ignores_argument:
  "getProbMissLog (setProbMiss (setProbHitLog example_tree (1 / 2)) (2 / 5)) = 0 \<and>
   logit (2 / 5) \<noteq> 0"
  by (simp add: getProbMissLog_def setProbMiss_def setProbMissLog_def setProbHitLog_def logit_def)

subsection \<open>Lookup\<close>

text \<open>
  Claim C6: when the path of a code reaches a collapsed inner node before the code's depth,
  \<open>getNode\<close> returns that ancestor at the depth at which descent stopped. In the unexpanded
  example tree the descent for the leaf code 0 stops at the root, at depth 2; the handle
  returned holds the root, but under a code of depth 3, one more than the depth of the node
  it points to (the source builds it with \<open>code.toDepth(depth + 1)\<close>).
\<close>

theorem getNode_collapsed_depth_off_by_one:
  "depth_levels example_tree = 2 \<and>
   getNode example_tree (Code 0 0) False = Node (Some (root_node example_tree)) (Code 0 3)"
  by code_simp

text \<open>
  Claim C8: \<open>getChild\<close> fails exactly when the child index is above 7 or the node is a leaf,
  and returns the designated child otherwise. The guard of the source is inverted: on the
  root of the tree with one hit, which has children, child 0 is refused; on the root of the
  unexpanded tree, which is a leaf, a handle is returned.
\<close>

theorem getChild_guard_inverted:
  "hasChildrenNode (getRoot hit_tree) \<and>
   getChild hit_tree (getRoot hit_tree) 0 = Inl StdException \<and>
   isLeafNode (getRoot example_tree) \<and>
   getChild example_tree (getRoot example_tree) 0 = Inr (Node (Some default_node) (Code 0 3))"
  by code_simp

subsection \<open>Saturated updates\<close>

text \<open>
  Claim C5: if the update is non-negative and the logit stored at the code is at or above the
  upper clamping bound, or the update is non-positive and that logit is at or below the lower
  bound, then \<open>updateNodeValue\<close> returns the node that \<open>getNode\<close> finds and the tree is the
  same afterwards in every member: stored logits, summary flags and node counters.
\<close>

theorem updateNodeValue_saturated_unchanged:
  assumes "(0 \<le> logit_update \<and> node_logit (deref (getNode t c False)) \<ge> clamping_thres_max_log t) \<or>
           (0 \<ge> logit_update \<and> node_logit (deref (getNode t c False)) \<le> clamping_thres_min_log t)"
  shows "updateNodeValue t c logit_update = (getNode t c False, t)"
  using assms by (simp add: updateNodeValue_def Let_def)

theorem updateNodeValue_saturated_unchanged_witness:
  "(0 \<le> (1::real) \<and>
    node_logit (deref (getNode full_tree (Code 0 0) False)) \<ge> clamping_thres_max_log full_tree) \<and>
   updateNodeValue full_tree (Code 0 0) 1 = (getNode full_tree (Code 0 0) False, full_tree)"
proof -
  have h: "0 \<le> (1::real) \<and>
      node_logit (deref (getNode full_tree (Code 0 0) False)) \<ge> clamping_thres_max_log full_tree"
    by code_simp
  from h have "updateNodeValue full_tree (Code 0 0) 1 = (getNode full_tree (Code 0 0) False, full_tree)"
    by (intro updateNodeValue_saturated_unchanged disjI1)
  with h show ?thesis by blast
qed

subsection \<open>Ray traversal\<close>

lemma vget_minElementIndex: "vget p (minElementIndex p) = min3 p"
  by (cases p) auto

lemma minElementIndex_cases: "minElementIndex p = 0 \<or> minElementIndex p = 1 \<or> minElementIndex p = 2"
  by (cases p) auto

lemma vget_vset: "vget (vset p i v) j =
    (if (if i = 0 then 0 else if i = 1 then 1 else 2) = (if j = 0 then (0::nat) else if j = 1 then 1 else 2)
     then v else vget p j)"
  by (cases p) auto

lemma floor_step:
  fixes x d b :: real
  assumes "0 < d" and "x \<le> b"
  shows "nat (\<lfloor>(b - (x + d)) / d\<rfloor> + 1) < nat (\<lfloor>(b - x) / d\<rfloor> + 1)"
proof -
  have "(b - (x + d)) / d = (b - x) / d - 1"
    using assms(1) by (simp add: field_simps)
  then have e: "\<lfloor>(b - (x + d)) / d\<rfloor> = \<lfloor>(b - x) / d\<rfloor> - 1" by simp
  have "0 \<le> (b - x) / d" using assms by simp
  then have "0 \<le> \<lfloor>(b - x) / d\<rfloor>" by simp
  with e show ?thesis by simp
qed

lemma takeStep_fields:
  "t_delta (computeRayTakeStep s depth) = t_delta s"
  "ending (computeRayTakeStep s depth) = ending s"
  "t_max (computeRayTakeStep s depth) =
     vset (t_max s) (minElementIndex (t_max s))
       (vget (t_max s) (minElementIndex (t_max s)) + vget (t_delta s) (minElementIndex (t_max s)))"
  by (simp_all add: computeRayTakeStep_def Let_def)

lemma steps_left_decreases:
  assumes "positive_delta s" and "min3 (t_max s) \<le> bound"
  shows "steps_left bound (computeRayTakeStep s depth) < steps_left bound s"
proof -
  let ?i = "minElementIndex (t_max s)"
  have le: "vget (t_max s) ?i \<le> bound" using assms(2) by (simp add: vget_minElementIndex)
  from assms(1) have pos: "0 < vget (t_delta s) 0" "0 < vget (t_delta s) 1" "0 < vget (t_delta s) 2"
    by (simp_all add: positive_delta_def)
  from minElementIndex_cases[of "t_max s"] show ?thesis
  proof (elim disjE)
    assume i: "?i = 0"
    with floor_step[OF pos(1), of "vget (t_max s) 0" bound] le show ?thesis
      by (simp add: steps_left_def takeStep_fields vget_vset)
  next
    assume i: "?i = 1"
    with floor_step[OF pos(2), of "vget (t_max s) 1" bound] le show ?thesis
      by (simp add: steps_left_def takeStep_fields vget_vset)
  next
    assume i: "?i = 2"
    with floor_step[OF pos(3), of "vget (t_max s) 2" bound] le show ?thesis
      by (simp add: steps_left_def takeStep_fields vget_vset)
  qed
qed

lemma positive_delta_takeStep: "positive_delta (computeRayTakeStep s depth) = positive_delta s"
  by (simp add: positive_delta_def takeStep_fields)

lemma castRayLoop_terminates:
  assumes "positive_delta s"
  shows "\<exists>s'. castRayLoop t ign bound depth s = Some s'"
  using assms
proof (induction "steps_left bound s" arbitrary: s rule: less_induct)
  case less
  show ?case
  proof (cases "current s \<noteq> ending s \<and> min3 (t_max s) \<le> bound \<and> \<not> isOccupiedKey t (current s) \<and>
         (ign \<or> \<not> isUnknownKey t (current s))")
    case True
    then have "steps_left bound (computeRayTakeStep s depth) < steps_left bound s"
      using less.prems by (intro steps_left_decreases) auto
    from less.hyps[OF this] less.prems
    obtain s' where "castRayLoop t ign bound depth (computeRayTakeStep s depth) = Some s'"
      by (auto simp: positive_delta_takeStep)
    with True show ?thesis by (subst castRayLoop.simps) auto
  next
    case False
    then show ?thesis by (subst castRayLoop.simps) auto
  qed
qed

lemma init_axis_delta:
  assumes "0 < getNodeSize t depth"
  shows "0 < vget (fst (snd (snd (computeRayInitAxis t origin dir depth i st)))) i"
    and "j \<noteq> i \<Longrightarrow> j < 3 \<Longrightarrow> i < 3 \<Longrightarrow>
         vget (fst (snd (snd (computeRayInitAxis t origin dir depth i st)))) j = vget (fst (snd (snd st))) j"
  using assms
  by (cases st; cases "fst (snd (snd st))";
      auto simp: computeRayInitAxis_def Let_def float_max_def divide_less_0_iff)+

lemma init_positive_delta:
  assumes "0 < getNodeSize t depth" and "coordToKey t origin depth \<noteq> coordToKey t end depth"
  shows "positive_delta (computeRayInit t origin end dir depth)"
proof -
  define s0 where "s0 = (keyToCoord t (coordToKey t origin depth), (0::int, 0::int, 0::int), (0::real, 0::real, 0::real), (0::real, 0::real, 0::real))"
  define f where "f = computeRayInitAxis t origin dir depth"
  define td where "td = (\<lambda>st :: point3 \<times> (int \<times> int \<times> int) \<times> point3 \<times> point3. fst (snd (snd st)))"
  have p0: "0 < vget (td (f 0 s0)) 0"
    unfolding td_def f_def by (rule init_axis_delta(1)[OF assms(1)])
  have p1: "0 < vget (td (f 1 (f 0 s0))) 1" "vget (td (f 1 (f 0 s0))) 0 = vget (td (f 0 s0)) 0"
    unfolding td_def f_def
    by (rule init_axis_delta(1)[OF assms(1)], rule init_axis_delta(2)[OF assms(1)]) simp_all
  have p2: "0 < vget (td (f 2 (f 1 (f 0 s0)))) 2"
    "vget (td (f 2 (f 1 (f 0 s0)))) 0 = vget (td (f 1 (f 0 s0))) 0"
    "vget (td (f 2 (f 1 (f 0 s0)))) 1 = vget (td (f 1 (f 0 s0))) 1"
    unfolding td_def f_def
    by (rule init_axis_delta(1)[OF assms(1)], rule init_axis_delta(2)[OF assms(1)], simp_all,
        rule init_axis_delta(2)[OF assms(1)], simp_all)
  have "fold f [0..<3] s0 = f 2 (f 1 (f 0 s0))"
    by (simp add: upt_rec[of 0] upt_rec[of 1] upt_rec[of 2] flip: One_nat_def)
  then have "t_delta (computeRayInit t origin end dir depth) = td (f 2 (f 1 (f 0 s0)))"
    using assms(2) by (simp add: computeRayInit_def Let_def f_def s0_def td_def split_beta)
  with p0 p1 p2 show ?thesis by (simp add: positive_delta_def)
qed

lemma castRayLoop_init_terminates:
  assumes "0 < getNodeSize t depth"
  shows "\<exists>s'. castRayLoop t ign bound depth (computeRayInit t origin end dir depth) = Some s'"
proof (cases "coordToKey t origin depth = coordToKey t end depth")
  case True
  then have "current (computeRayInit t origin end dir depth) = ending (computeRayInit t origin end dir depth)"
    by (simp add: computeRayInit_def Let_def)
  then show ?thesis by (subst castRayLoop.simps) simp
next
  case False
  with assms show ?thesis by (intro castRayLoop_terminates init_positive_delta)
qed

lemma distance3_nonneg: "0 \<le> distance3 p q"
  by (cases p; cases q) simp

text \<open>
  Claim C10, as amended: for every origin and direction, \<open>castRay\<close> with a negative
  \<open>max_range\<close> behaves exactly as with \<open>max_range\<close> equal to the distance between \<open>getMin()\<close>
  and \<open>getMax()\<close>. When the line of that length from the origin meets the bounding box, it
  returns true if and only if the key at which stepping stops is occupied, and \<open>end\<close> is the
  centre of that key. When the line misses the box there is no stepping: the result is false
  and \<open>end\<close> is as the caller passed it. The cast returns (the loop ends) when the node size
  at the chosen depth is positive.
\<close>

theorem castRay_default_range:
  assumes "max_range < 0" and "0 < getNodeSize t depth"
  shows "castRay t origin direction end0 ign max_range depth =
           castRay t origin direction end0 ign (distance3 (getMin t) (getMax t)) depth \<and>
         (\<exists>hit e. castRay t origin direction end0 ign max_range depth = Some (hit, e) \<and>
            (case moveLineIntoBBX t origin
                    (vadd origin (vscale (normalize3 direction) (distance3 (getMin t) (getMax t)))) of
               None \<Rightarrow> \<not> hit \<and> e = end0
             | Some (origin2, end2) \<Rightarrow>
                 (\<exists>s. castRayLoop t ign (distance3 (getMin t) (getMax t)) depth
                         (computeRayInit t origin2 end2 (normalize3 direction) depth) = Some s \<and>
                      hit = isOccupiedKey t (current s) \<and> e = keyToCoord t (current s))))"
proof -
  let ?diag = "distance3 (getMin t) (getMax t)"
  have nn: "\<not> 0 > ?diag" using distance3_nonneg[of "getMin t" "getMax t"] by simp
  have eq: "castRay t origin direction end0 ign max_range depth =
            castRay t origin direction end0 ign ?diag depth"
    using assms(1) nn by (simp add: castRay_def)
  show ?thesis
  proof (cases "moveLineIntoBBX t origin (vadd origin (vscale (normalize3 direction) ?diag))")
    case None
    with nn have "castRay t origin direction end0 ign ?diag depth = Some (False, end0)"
      by (simp add: castRay_def)
    with eq None show ?thesis by auto
  next
    case (Some p)
    obtain o2 e2 where p: "p = (o2, e2)" by (cases p)
    obtain s where s: "castRayLoop t ign ?diag depth (computeRayInit t o2 e2 (normalize3 direction) depth) = Some s"
      using castRayLoop_init_terminates[OF assms(2)] by blast
    with nn Some p have "castRay t origin direction end0 ign ?diag depth =
        Some (isOccupiedKey t (current s), keyToCoord t (current s))"
      by (simp add: castRay_def)
    with eq Some p s show ?thesis by auto
  qed
qed


lemma example_diag:
  "distance3 (getMin example_tree) (getMax example_tree) = sqrt 48"
  "distance3 (getMin hit_tree) (getMax hit_tree) = sqrt 48"
proof -
  have "getMin example_tree = (- 2, - 2, - 2)" "getMax example_tree = (2, 2, 2)"
    "getMin hit_tree = (- 2, - 2, - 2)" "getMax hit_tree = (2, 2, 2)"
    by code_simp+
  then show "distance3 (getMin example_tree) (getMax example_tree) = sqrt 48"
    "distance3 (getMin hit_tree) (getMax hit_tree) = sqrt 48"
    by simp_all
qed

lemma sqrt48: "5 / 2 < sqrt 48"
  by (rule real_less_rsqrt) (simp add: power2_eq_square)

lemma normalize3_axis: "normalize3 (1, 0, 0) = (1, 0, 0)" "normalize3 (- 1, 0, 0) = (- 1, 0, 0)"
  by (simp_all add: normalize3_def norm3_def)

lemma castRayLoop_step:
  "current s \<noteq> ending s \<Longrightarrow> min3 (t_max s) \<le> d \<Longrightarrow> \<not> isOccupiedKey t (current s) \<Longrightarrow>
   ign \<or> \<not> isUnknownKey t (current s) \<Longrightarrow>
   castRayLoop t ign d depth s = castRayLoop t ign d depth (computeRayTakeStep s depth)"
  by (subst castRayLoop.simps) simp

lemma castRayLoop_stop:
  "current s = ending s \<Longrightarrow> castRayLoop t ign d depth s = Some s"
  by (subst castRayLoop.simps) simp

lemma west_clip:
  assumes "5 / 2 < D"
  shows "moveLineIntoBBX hit_tree (1/2, - (3/2), - (3/2)) (1/2 - D, - (3/2), - (3/2)) =
           Some ((1/2, - (3/2), - (3/2)), (- 2, - (3/2), - (3/2)))"
proof -
  have b: "bbx_limit_enabled hit_tree = False" "getMin hit_tree = (- 2, - 2, - 2)"
    "getMax hit_tree = (2, 2, 2)"
    by code_simp+
  have u: "[0..<3] = [0, 1, 2]" by (simp add: upt_rec)
  have x: "1 / 2 + (- D) * (- (5 / 2) / (- D)) = - 2"
    using assms by (simp add: field_simps)
  have c1: "collectHits (- 2, - 2, - 2) (- 2, - 2, - 2) (2, 2, 2)
              (1/2, - (3/2), - (3/2)) (1/2 - D, - (3/2), - (3/2)) [] = [(- 2, - (3/2), - (3/2))]"
    unfolding collectHits_def u using assms
    by (simp add: getIntersection_def inBBXAxis_def zero_le_mult_iff x)
  have c2: "collectHits (2, 2, 2) (- 2, - 2, - 2) (2, 2, 2)
              (1/2, - (3/2), - (3/2)) (1/2 - D, - (3/2), - (3/2)) [(- 2, - (3/2), - (3/2))] =
              [(- 2, - (3/2), - (3/2))]"
    unfolding collectHits_def u using assms
    by (simp add: getIntersection_def inBBXAxis_def zero_le_mult_iff)
  show ?thesis
    using assms by (simp add: moveLineIntoBBX_def moveLineIntoBBX4_def b c1 c2)
qed

lemma west_cast:
  "castRay hit_tree (1/2, - (3/2), - (3/2)) (- 1, 0, 0) (0, 0, 0) True
      (distance3 (getMin hit_tree) (getMax hit_tree)) 0 =
     Some (True, (- (3/2), - (3/2), - (3/2)))"
proof -
  define D where "D = sqrt 48"
  have D: "5 / 2 < D" unfolding D_def by (rule sqrt48)
  have e: "vadd (1/2, - (3/2), - (3/2)) (vscale (- 1, 0, 0) D) = (1/2 - D, - (3/2), - (3/2))"
    by simp
  have init: "computeRayInit hit_tree (1/2, - (3/2), - (3/2)) (- 2, - (3/2), - (3/2)) (- 1, 0, 0) 0 =
                west_ray 2 (1/2)"
    unfolding west_ray_def by code_simp
  have s1: "computeRayTakeStep (west_ray 2 (1/2)) 0 = west_ray 1 (3/2)"
    unfolding west_ray_def by code_simp
  have s2: "computeRayTakeStep (west_ray 1 (3/2)) 0 = west_ray 0 (5/2)"
    unfolding west_ray_def by code_simp
  have o: "\<not> isOccupiedKey hit_tree (Key 2 0 0 0)" "\<not> isOccupiedKey hit_tree (Key 1 0 0 0)"
    "isOccupiedKey hit_tree (Key 0 0 0 0)"
    "keyToCoord hit_tree (Key 0 0 0 0) = (- (3/2), - (3/2), - (3/2))"
    by code_simp+
  have "castRayLoop hit_tree True D 0 (west_ray 2 (1/2)) =
        castRayLoop hit_tree True D 0 (west_ray 1 (3/2))"
    unfolding s1[symmetric] using D o(1)
    by (intro castRayLoop_step) (simp_all add: west_ray_def float_max_def)
  also have "\<dots> = castRayLoop hit_tree True D 0 (west_ray 0 (5/2))"
    unfolding s2[symmetric] using D o(2)
    by (intro castRayLoop_step) (simp_all add: west_ray_def float_max_def)
  also have "\<dots> = Some (west_ray 0 (5/2))"
    by (rule castRayLoop_stop) (simp add: west_ray_def)
  finally have l: "castRayLoop hit_tree True D 0 (west_ray 2 (1/2)) = Some (west_ray 0 (5/2))" .
  have c: "current (west_ray 0 (5/2)) = Key 0 0 0 0" by (simp add: west_ray_def)
  have nn: "\<not> D < 0" using D by simp
  show ?thesis
    unfolding castRay_def Let_def example_diag normalize3_axis D_def[symmetric]
    by (simp add: nn e west_clip[OF D] init l c o)
qed

theorem castRay_default_range_witness:
  "(- 1 :: real) < 0 \<and> 0 < getNodeSize hit_tree 0 \<and>
   castRay hit_tree (1/2, - (3/2), - (3/2)) (- 1, 0, 0) (0, 0, 0) True (- 1) 0 =
     Some (True, (- (3/2), - (3/2), - (3/2))) \<and>
   coordToKey hit_tree (1/2, - (3/2), - (3/2)) 0 = Key 2 0 0 0 \<and>
   keyToCoord hit_tree (Key 0 0 0 0) = (- (3/2), - (3/2), - (3/2)) \<and>
   isOccupiedKey hit_tree (Key 0 0 0 0)"
proof -
  have h: "(- 1 :: real) < 0" "0 < getNodeSize hit_tree 0"
    by code_simp+
  have o: "coordToKey hit_tree (1/2, - (3/2), - (3/2)) 0 = Key 2 0 0 0"
    "keyToCoord hit_tree (Key 0 0 0 0) = (- (3/2), - (3/2), - (3/2))"
    "isOccupiedKey hit_tree (Key 0 0 0 0)"
    by code_simp+
  from castRay_default_range[OF h, of "(1/2, - (3/2), - (3/2))" "(- 1, 0, 0)" "(0, 0, 0)" True]
  have "castRay hit_tree (1/2, - (3/2), - (3/2)) (- 1, 0, 0) (0, 0, 0) True (- 1) 0 =
        castRay hit_tree (1/2, - (3/2), - (3/2)) (- 1, 0, 0) (0, 0, 0) True
          (distance3 (getMin hit_tree) (getMax hit_tree)) 0"
    by blast
  with west_cast h o show ?thesis by simp
qed

text \<open>
  Claim C10 as stated has \<open>end\<close> set to the centre of the key at which stepping stops on
  every call. From the origin (10, 1/2, 1/2), outside the box of the example tree, the line
  in the direction (1, 0, 0) misses the box: \<open>castRay\<close> returns false without a step and
  leaves \<open>end\<close> as it was passed, (7, 7, 7), which is the centre of no key at depth 0.
\<close>

theorem castRay_miss_leaves_end:
  "moveLineIntoBBX example_tree (10, 1/2, 1/2)
     (vadd (10, 1/2, 1/2)
        (vscale (normalize3 (1, 0, 0)) (distance3 (getMin example_tree) (getMax example_tree)))) = None \<and>
   castRay example_tree (10, 1/2, 1/2) (1, 0, 0) (7, 7, 7) False (- 1) 0 = Some (False, (7, 7, 7)) \<and>
   (\<forall>x y z. keyToCoord example_tree (Key x y z 0) \<noteq> (7, 7, 7))"
proof -
  define D where "D = sqrt 48"
  have D: "5 / 2 < D" unfolding D_def by (rule sqrt48)
  have b: "bbx_limit_enabled example_tree = False" "getMin example_tree = (- 2, - 2, - 2)"
    "getMax example_tree = (2, 2, 2)"
    by code_simp+
  have mv: "moveLineIntoBBX example_tree (10, 1/2, 1/2) (10 + D, 1/2, 1/2) = None"
    using D by (simp add: moveLineIntoBBX_def moveLineIntoBBX4_def b)
  have e: "vadd (10, 1/2, 1/2)
        (vscale (normalize3 (1, 0, 0)) (distance3 (getMin example_tree) (getMax example_tree))) =
        (10 + D, 1/2, 1/2)"
    by (simp add: normalize3_axis example_diag D_def)
  have c: "castRay example_tree (10, 1/2, 1/2) (1, 0, 0) (7, 7, 7) False (- 1) 0 = Some (False, (7, 7, 7))"
    unfolding castRay_def Let_def by (simp add: e mv)
  have k: "keyToCoord example_tree (Key x y z 0) \<noteq> (7, 7, 7)" for x y z
  proof
    assume "keyToCoord example_tree (Key x y z 0) = (7, 7, 7)"
    then have "keyToCoord1 example_tree x 0 = 7" by (simp add: keyToCoord_def)
    moreover have "real x - 2 = of_int (int x - 2)" by simp
    then have "\<lfloor>real x - 2\<rfloor> = int x - 2" by (simp only: floor_of_int)
    ultimately have "real_of_int (int x - 2) + 1 / 2 = 7"
      by (simp add: keyToCoord1_def example_tree_def getNodeSize_def)
    then have "real_of_int (2 * int x) = real_of_int 17" by simp
    then have "2 * int x = 17" by (simp only: of_int_eq_iff)
    then show False by presburger
  qed
  from mv c k show ?thesis by (simp add: e)
qed

text \<open>
  Claim C2: \<open>computeRay\<close> emits the current key and steps until the current key is the
  ending key or the smallest \<open>t_max\<close> exceeds the distance from the origin to the clipped
  end; with the default \<open>max_range = -1\<close> the full sequence of traversed keys is emitted. The
  loop of the source compares \<open>t_max.min()\<close> with \<open>max_range\<close>, not with the distance: for
  a ray from the cell of key (2,2,2) to the neighbouring cell of key (3,2,2) nothing is
  emitted under the default \<open>max_range\<close>, while \<open>max_range = 1\<close>, the length of the ray,
  yields the key of the origin.
\<close>

theorem computeRay_default_range_emits_nothing: "coordToKey example_tree (1/2, 1/2, 1/2) 0 \<noteq> coordToKey example_tree (3/2, 1/2, 1/2) 0 \<and>
  computeRay example_tree (1/2, 1/2, 1/2) (3/2, 1/2, 1/2) [] (- 1) 0 = Some [] \<and>
  computeRay example_tree (1/2, 1/2, 1/2) (3/2, 1/2, 1/2) [] 1 0 = Some [Key 2 2 2 0]"
proof -
  have n: "normalize3 (vsub (3/2, 1/2, 1/2) (1/2, 1/2, 1/2)) = (1, 0, 0)"
    by (simp add: normalize3_def norm3_def)
  have d: "distance3 (1/2, 1/2, 1/2) (3/2, 1/2, 1/2) = 1"
    by simp
  have mv: "moveLineIntoBBX example_tree (1/2, 1/2, 1/2) (3/2, 1/2, 1/2) =
              Some ((1/2, 1/2, 1/2), (3/2, 1/2, 1/2))"
    by code_simp
  have init: "computeRayInit example_tree (1/2, 1/2, 1/2) (3/2, 1/2, 1/2) (1, 0, 0) 0 =
      \<lparr>current = Key 2 2 2 0, ending = Key 3 2 2 0, step = (1, 0, 0),
       t_delta = (1, float_max, float_max), t_max = (1/2, float_max, float_max)\<rparr>"
    by code_simp
  have stp: "computeRayTakeStep \<lparr>current = Key 2 2 2 0, ending = Key 3 2 2 0, step = (1, 0, 0),
       t_delta = (1, float_max, float_max), t_max = (1/2, float_max, float_max)\<rparr> 0 =
      \<lparr>current = Key 3 2 2 0, ending = Key 3 2 2 0, step = (1, 0, 0),
       t_delta = (1, float_max, float_max), t_max = (3/2, float_max, float_max)\<rparr>"
    by code_simp
  have k: "coordToKey example_tree (1/2, 1/2, 1/2) 0 \<noteq> coordToKey example_tree (3/2, 1/2, 1/2) 0"
    by code_simp
  have r1: "computeRay example_tree (1/2, 1/2, 1/2) (3/2, 1/2, 1/2) [] (- 1) 0 = Some []"
    unfolding computeRay_def n d
    by (simp add: mv init) (subst computeRayLoop.simps, simp add: float_max_def)
  have r2: "computeRay example_tree (1/2, 1/2, 1/2) (3/2, 1/2, 1/2) [] 1 0 = Some [Key 2 2 2 0]"
    unfolding computeRay_def n d
    apply (simp add: mv init)
    apply (subst computeRayLoop.simps, simp add: stp, simp add: float_max_def)
    apply (subst computeRayLoop.simps, simp)
    done
  from k r1 r2 show ?thesis by simp
qed

subsection \<open>The update accumulator\<close>

lemma map_of_assign: "map_of (assign acc k v) = (map_of acc)(k \<mapsto> v)"
  by (induction acc k v rule: assign.induct) auto

lemma fst_set_assign: "fst ` set (assign acc k v) = insert k (fst ` set acc)"
  by (induction acc k v rule: assign.induct) auto

lemma distinct_assign: "distinct (map fst acc) \<Longrightarrow> distinct (map fst (assign acc k v))"
proof (induction acc k v rule: assign.induct)
  case (1 k v)
  then show ?case by simp
next
  case (2 k' v' kvs k v)
  then show ?case using fst_set_assign[of kvs k v] by auto
qed

lemma map_of_try_emplace:
  "map_of (try_emplace acc k v) c =
     (case map_of acc c of Some w \<Rightarrow> Some w | None \<Rightarrow> if c = k then Some v else None)"
  by (auto simp: try_emplace_def map_add_def split: option.splits)

lemma distinct_try_emplace: "distinct (map fst acc) \<Longrightarrow> distinct (map fst (try_emplace acc k v))"
  by (auto simp: try_emplace_def map_of_eq_None_iff)

lemma map_of_fold_try_emplace:
  "map_of (fold (\<lambda>k a. try_emplace a (f k) v) ks acc) c =
     (case map_of acc c of Some w \<Rightarrow> Some w | None \<Rightarrow> if c \<in> f ` set ks then Some v else None)"
proof (induction ks arbitrary: acc)
  case Nil
  then show ?case by (simp split: option.splits)
next
  case (Cons k ks)
  show ?case
    by (simp add: Cons.IH map_of_try_emplace split: option.splits)
qed

lemma distinct_fold_try_emplace:
  "distinct (map fst acc) \<Longrightarrow> distinct (map fst (fold (\<lambda>k a. try_emplace a (f k) v) ks acc))"
  by (induction ks arbitrary: acc) (simp_all add: distinct_try_emplace)

lemma computeRayLoop_append:
  assumes "positive_delta s"
  shows "\<exists>ks. computeRayLoop bound 0 s ray = Some (ray @ ks) \<and>
              computeUpdateLoop t bound s acc =
                Some (fold (\<lambda>k a. try_emplace a (toCode k) (prob_miss_log t)) ks acc)"
  using assms
proof (induction "steps_left bound s" arbitrary: s ray acc rule: less_induct)
  case less
  show ?case
  proof (cases "current s \<noteq> ending s \<and> min3 (t_max s) \<le> bound")
    case True
    then have "steps_left bound (computeRayTakeStep s 0) < steps_left bound s"
      using less.prems by (intro steps_left_decreases) auto
    from less.hyps[OF this, of "ray @ [current s]" "try_emplace acc (toCode (current s)) (prob_miss_log t)"]
      less.prems
    obtain ks where
      r: "computeRayLoop bound 0 (computeRayTakeStep s 0) (ray @ [current s]) = Some ((ray @ [current s]) @ ks)"
      and u: "computeUpdateLoop t bound (computeRayTakeStep s 0)
                (try_emplace acc (toCode (current s)) (prob_miss_log t)) =
              Some (fold (\<lambda>k a. try_emplace a (toCode k) (prob_miss_log t)) ks
                      (try_emplace acc (toCode (current s)) (prob_miss_log t)))"
      by (auto simp: positive_delta_takeStep)
    have "computeRayLoop bound 0 s ray = Some (ray @ current s # ks)"
      using True r by (subst computeRayLoop.simps) simp
    moreover have "computeUpdateLoop t bound s acc =
        Some (fold (\<lambda>k a. try_emplace a (toCode k) (prob_miss_log t)) (current s # ks) acc)"
      using True u by (subst computeUpdateLoop.simps) simp
    ultimately show ?thesis by blast
  next
    case False
    then have "computeRayLoop bound 0 s ray = Some (ray @ [])"
      by (subst computeRayLoop.simps) auto
    moreover from False have "computeUpdateLoop t bound s acc =
        Some (fold (\<lambda>k a. try_emplace a (toCode k) (prob_miss_log t)) [] acc)"
      by (subst computeUpdateLoop.simps) auto
    ultimately show ?thesis by blast
  qed
qed

lemma computeRayLoop_init:
  assumes "0 < getNodeSize t 0"
  shows "\<exists>ks. computeRayLoop bound 0 (computeRayInit t origin end dir 0) [] = Some ks \<and>
              computeUpdateLoop t bound (computeRayInit t origin end dir 0) acc =
                Some (fold (\<lambda>k a. try_emplace a (toCode k) (prob_miss_log t)) ks acc)"
proof (cases "coordToKey t origin 0 = coordToKey t end 0")
  case True
  then have c: "current (computeRayInit t origin end dir 0) = ending (computeRayInit t origin end dir 0)"
    by (simp add: computeRayInit_def Let_def)
  then have "computeRayLoop bound 0 (computeRayInit t origin end dir 0) [] = Some []"
    by (subst computeRayLoop.simps) simp
  moreover from c have "computeUpdateLoop t bound (computeRayInit t origin end dir 0) acc =
      Some (fold (\<lambda>k a. try_emplace a (toCode k) (prob_miss_log t)) [] acc)"
    by (subst computeUpdateLoop.simps) simp
  ultimately show ?thesis by blast
next
  case False
  with assms have "positive_delta (computeRayInit t origin end dir 0)"
    by (rule init_positive_delta)
  from computeRayLoop_append[OF this, of bound "[]" t acc] show ?thesis by simp
qed

text \<open>One point of the cloud.\<close>

lemma computeUpdatePoint_cells:
  assumes "0 < getNodeSize t 0" and "distinct (map fst acc)"
  shows "\<exists>acc'. computeUpdatePoint t orig p mr acc = Some acc' \<and> distinct (map fst acc') \<and>
           (\<forall>c. map_of acc' c =
                  (if endpointCode t orig mr p = Some c then Some (prob_hit_log t)
                   else case map_of acc c of
                          Some w \<Rightarrow> Some w
                        | None \<Rightarrow> if c \<in> set (traversedCodes t orig mr p)
                                  then Some (prob_miss_log t) else None))"
proof -
  define distance where "distance = norm3 (vsub p orig)"
  define dir where "dir = vdiv (vsub p orig) distance"
  define end1 where "end1 = (if 0 \<le> mr \<and> distance > mr then vadd orig (vscale dir mr) else p)"
  have cup: "computeUpdatePoint t orig p mr acc =
      (case moveLineIntoBBX t orig end1 of
         None \<Rightarrow> Some acc
       | Some (o2, e2) \<Rightarrow>
           computeUpdateLoop t distance (computeRayInit t o2 e2 dir 0)
             (if p = e2 then assign acc (toCode (coordToKey t e2 0)) (prob_hit_log t) else acc))"
    unfolding computeUpdatePoint_def Let_def end1_def dir_def distance_def by (rule refl)
  have epc: "endpointCode t orig mr p =
      (case moveLineIntoBBX t orig end1 of
         None \<Rightarrow> None
       | Some (o2, e2) \<Rightarrow> if p = e2 then Some (toCode (coordToKey t e2 0)) else None)"
    unfolding endpointCode_def Let_def end1_def dir_def distance_def by (rule refl)
  have trc: "traversedCodes t orig mr p =
      (case moveLineIntoBBX t orig end1 of
         None \<Rightarrow> []
       | Some (o2, e2) \<Rightarrow>
           (case computeRayLoop distance 0 (computeRayInit t o2 e2 dir 0) [] of
              None \<Rightarrow> []
            | Some ray \<Rightarrow> map toCode ray))"
    unfolding traversedCodes_def Let_def end1_def dir_def distance_def by (rule refl)
  show ?thesis
  proof (cases "moveLineIntoBBX t orig end1")
    case None
    then have "computeUpdatePoint t orig p mr acc = Some acc" "endpointCode t orig mr p = None"
      "traversedCodes t orig mr p = []"
      by (simp_all add: cup epc trc)
    with assms(2) show ?thesis by (auto split: option.splits)
  next
    case (Some oe)
    obtain o2 e2 where oe: "oe = (o2, e2)" by (cases oe)
    define k where "k = toCode (coordToKey t e2 0)"
    define acc1 where "acc1 = (if p = e2 then assign acc k (prob_hit_log t) else acc)"
    have d1: "distinct (map fst acc1)" using assms(2) by (simp add: acc1_def distinct_assign)
    from computeRayLoop_init[OF assms(1), of distance o2 e2 dir acc1]
    obtain ks where ks: "computeRayLoop distance 0 (computeRayInit t o2 e2 dir 0) [] = Some ks"
      and l: "computeUpdateLoop t distance (computeRayInit t o2 e2 dir 0) acc1 =
                Some (fold (\<lambda>k a. try_emplace a (toCode k) (prob_miss_log t)) ks acc1)"
      by blast
    define acc' where "acc' = fold (\<lambda>k a. try_emplace a (toCode k) (prob_miss_log t)) ks acc1"
    have cu: "computeUpdatePoint t orig p mr acc = Some acc'"
      using Some oe l by (auto simp: cup acc1_def k_def acc'_def)
    have ec: "endpointCode t orig mr p = (if p = e2 then Some k else None)"
      using Some oe by (simp add: epc k_def)
    have tc: "set (traversedCodes t orig mr p) = toCode ` set ks"
      using Some oe ks by (simp add: trc)
    have d': "distinct (map fst acc')"
      unfolding acc'_def using d1 by (rule distinct_fold_try_emplace)
    have m': "map_of acc' c =
        (case map_of acc1 c of Some w \<Rightarrow> Some w
         | None \<Rightarrow> if c \<in> toCode ` set ks then Some (prob_miss_log t) else None)" for c
      unfolding acc'_def by (rule map_of_fold_try_emplace)
    have "map_of acc' c =
                  (if endpointCode t orig mr p = Some c then Some (prob_hit_log t)
                   else case map_of acc c of
                          Some w \<Rightarrow> Some w
                        | None \<Rightarrow> if c \<in> set (traversedCodes t orig mr p)
                                  then Some (prob_miss_log t) else None)" for c
      unfolding m' ec tc by (auto simp: acc1_def map_of_assign split: option.splits)
    with cu d' show ?thesis by blast
  qed
qed

lemma computeUpdate_cells:
  assumes "0 < getNodeSize t 0" and "distinct (map fst acc)"
  shows "\<exists>acc'. computeUpdate t orig cloud mr acc = Some acc' \<and> distinct (map fst acc') \<and>
           (\<forall>c. map_of acc' c =
                  (if c \<in> hit_codes t orig mr cloud then Some (prob_hit_log t)
                   else case map_of acc c of
                          Some w \<Rightarrow> Some w
                        | None \<Rightarrow> if c \<in> miss_codes t orig mr cloud
                                  then Some (prob_miss_log t) else None))"
  using assms(2)
proof (induction cloud arbitrary: acc)
  case Nil
  then show ?case by (auto simp: hit_codes_def miss_codes_def split: option.splits)
next
  case (Cons p cloud)
  from computeUpdatePoint_cells[OF assms(1) Cons.prems, of orig p mr]
  obtain acc1 where a1: "computeUpdatePoint t orig p mr acc = Some acc1" "distinct (map fst acc1)"
    and p1: "\<And>c. map_of acc1 c =
                  (if endpointCode t orig mr p = Some c then Some (prob_hit_log t)
                   else case map_of acc c of
                          Some w \<Rightarrow> Some w
                        | None \<Rightarrow> if c \<in> set (traversedCodes t orig mr p)
                                  then Some (prob_miss_log t) else None)"
    by blast
  from Cons.IH[OF a1(2)]
  obtain acc' where a2: "computeUpdate t orig cloud mr acc1 = Some acc'" "distinct (map fst acc')"
    and p2: "\<And>c. map_of acc' c =
                  (if c \<in> hit_codes t orig mr cloud then Some (prob_hit_log t)
                   else case map_of acc1 c of
                          Some w \<Rightarrow> Some w
                        | None \<Rightarrow> if c \<in> miss_codes t orig mr cloud
                                  then Some (prob_miss_log t) else None)"
    by blast
  have h: "c \<in> hit_codes t orig mr (p # cloud) \<longleftrightarrow>
             endpointCode t orig mr p = Some c \<or> c \<in> hit_codes t orig mr cloud" for c
    by (auto simp: hit_codes_def)
  have m: "c \<in> miss_codes t orig mr (p # cloud) \<longleftrightarrow>
             c \<in> set (traversedCodes t orig mr p) \<or> c \<in> miss_codes t orig mr cloud" for c
    by (auto simp: miss_codes_def)
  have "map_of acc' c =
                  (if c \<in> hit_codes t orig mr (p # cloud) then Some (prob_hit_log t)
                   else case map_of acc c of
                          Some w \<Rightarrow> Some w
                        | None \<Rightarrow> if c \<in> miss_codes t orig mr (p # cloud)
                                  then Some (prob_miss_log t) else None)" for c
    unfolding p2 p1 h m by (simp split: option.splits)
  with a1 a2 show ?case by auto
qed

text \<open>
  Claim C3, as amended: within one \<open>insertPointCloud\<close> call that starts with an empty
  accumulator, the accumulator holds one update per cell at most when it is drained, and the
  drain calls \<open>updateNodeValue\<close> once per entry. A cell that is the surviving end point of a
  point of the cloud ends with \<open>prob_hit_log\<close>, whether a ray traverses it earlier or later
  or not at all: the hit is assigned and replaces a miss recorded earlier. A cell that is no
  such end point and that the ray to some point traverses ends with \<open>prob_miss_log\<close>, which
  is inserted only where there is no entry, so that a miss never replaces a hit or a miss.
  Every other cell ends without an entry. The accumulation ends when the leaf size is
  positive.
\<close>

theorem insertPointCloud_accumulator:
  assumes "0 < getNodeSize t 0" and "indices t = []"
  shows "\<exists>acc. computeUpdate t orig cloud mr (indices t) = Some acc \<and>
           insertPointCloud t orig cloud mr =
             Some ((fold (\<lambda>(c, v) s. snd (updateNodeValue s c v)) acc (t\<lparr>indices := acc\<rparr>))\<lparr>indices := []\<rparr>) \<and>
           distinct (map fst acc) \<and>
           (\<forall>c. map_of acc c =
                  (if c \<in> hit_codes t orig mr cloud then Some (prob_hit_log t)
                   else if c \<in> miss_codes t orig mr cloud then Some (prob_miss_log t)
                   else None))"
proof -
  have d: "distinct (map fst (indices t))" using assms(2) by simp
  from computeUpdate_cells[OF assms(1) d, of orig cloud mr]
  obtain acc where a: "computeUpdate t orig cloud mr (indices t) = Some acc" "distinct (map fst acc)"
    and p: "\<And>c. map_of acc c =
                  (if c \<in> hit_codes t orig mr cloud then Some (prob_hit_log t)
                   else case map_of (indices t) c of
                          Some w \<Rightarrow> Some w
                        | None \<Rightarrow> if c \<in> miss_codes t orig mr cloud
                                  then Some (prob_miss_log t) else None)"
    by blast
  have ins: "insertPointCloud t orig cloud mr =
          Some ((fold (\<lambda>(c, v) s. snd (updateNodeValue s c v)) acc (t\<lparr>indices := acc\<rparr>))\<lparr>indices := []\<rparr>)"
    by (simp add: insertPointCloud_def a)
  have q: "\<forall>c. map_of acc c =
                  (if c \<in> hit_codes t orig mr cloud then Some (prob_hit_log t)
                   else if c \<in> miss_codes t orig mr cloud then Some (prob_miss_log t)
                   else None)"
    using p assms(2) by simp
  from a ins q show ?thesis by blast
qed

lemma computeUpdateLoop_step:
  "current s \<noteq> ending s \<Longrightarrow> min3 (t_max s) \<le> d \<Longrightarrow>
   computeUpdateLoop t d s acc =
     computeUpdateLoop t d (computeRayTakeStep s 0)
       (try_emplace acc (toCode (current s)) (prob_miss_log t))"
  by (subst computeUpdateLoop.simps) simp

lemma computeUpdateLoop_stop:
  "current s = ending s \<Longrightarrow> computeUpdateLoop t d s acc = Some acc"
  by (subst computeUpdateLoop.simps) simp

lemma east_ray_step:
  "a \<le> float_max \<Longrightarrow> x < 100 \<Longrightarrow> computeRayTakeStep (east_ray x e a) 0 = east_ray (x + 1) e (a + 1)"
  by (simp add: east_ray_def computeRayTakeStep_def Let_def u32_def nat_add_distrib)

lemma east_ray_loop_step:
  assumes "x \<noteq> e" and "a \<le> d" and "a \<le> float_max" and "x < 100"
    and "x' = x + 1" and "a' = a + 1" and "toCode (Key x 2 2 0) = c" and "prob_miss_log t = m"
  shows "computeUpdateLoop t d (east_ray x e a) acc =
         computeUpdateLoop t d (east_ray x' e a') (try_emplace acc c m)"
proof -
  have "min3 (t_max (east_ray x e a)) \<le> d" using assms(2,3) by (simp add: east_ray_def)
  moreover have "current (east_ray x e a) \<noteq> ending (east_ray x e a)"
    using assms(1) by (simp add: east_ray_def)
  moreover have "current (east_ray x e a) = Key x 2 2 0" by (simp add: east_ray_def)
  ultimately show ?thesis
    using computeUpdateLoop_step[of "east_ray x e a" d t acc] east_ray_step[OF assms(3,4), of e] assms(5-8)
    by simp
qed

lemma east_ray_loop_stop: "computeUpdateLoop t d (east_ray e e a) acc = Some acc"
  by (rule computeUpdateLoop_stop) (simp add: east_ray_def)

lemma toCode_values:
  "toCode (Key 0 2 2 0) = Code 48 0" "toCode (Key 1 2 2 0) = Code 49 0"
  "toCode (Key 2 2 2 0) = Code 56 0" "toCode (Key 3 2 2 0) = Code 57 0"
  by code_simp+

lemma east_loop_to_3:
  "computeUpdateLoop example_tree 3 (east_ray 0 3 (1/2)) acc =
     Some (try_emplace (try_emplace (try_emplace acc (Code 48 0) (- (1/2))) (Code 49 0) (- (1/2)))
             (Code 56 0) (- (1/2)))"
proof -
  have pm: "prob_miss_log example_tree = - (1/2)" by (simp add: example_tree_def)
  have "computeUpdateLoop example_tree 3 (east_ray 0 3 (1/2)) acc =
        computeUpdateLoop example_tree 3 (east_ray 1 3 (3/2)) (try_emplace acc (Code 48 0) (- (1/2)))"
    by (rule east_ray_loop_step) (rule toCode_values | simp add: float_max_def pm)+
  also have "\<dots> = computeUpdateLoop example_tree 3 (east_ray 2 3 (5/2))
        (try_emplace (try_emplace acc (Code 48 0) (- (1/2))) (Code 49 0) (- (1/2)))"
    by (rule east_ray_loop_step) (rule toCode_values | simp add: float_max_def pm)+
  also have "\<dots> = computeUpdateLoop example_tree 3 (east_ray 3 3 (7/2))
        (try_emplace (try_emplace (try_emplace acc (Code 48 0) (- (1/2))) (Code 49 0) (- (1/2)))
             (Code 56 0) (- (1/2)))"
    by (rule east_ray_loop_step) (rule toCode_values | simp add: float_max_def pm)+
  finally show ?thesis by (simp add: east_ray_loop_stop)
qed

lemma east_loop_to_2:
  "computeUpdateLoop example_tree 2 (east_ray 0 2 (1/2)) acc =
     Some (try_emplace (try_emplace acc (Code 48 0) (- (1/2))) (Code 49 0) (- (1/2)))"
proof -
  have pm: "prob_miss_log example_tree = - (1/2)" by (simp add: example_tree_def)
  have "computeUpdateLoop example_tree 2 (east_ray 0 2 (1/2)) acc =
        computeUpdateLoop example_tree 2 (east_ray 1 2 (3/2)) (try_emplace acc (Code 48 0) (- (1/2)))"
    by (rule east_ray_loop_step) (rule toCode_values | simp add: float_max_def pm)+
  also have "\<dots> = computeUpdateLoop example_tree 2 (east_ray 2 2 (5/2))
        (try_emplace (try_emplace acc (Code 48 0) (- (1/2))) (Code 49 0) (- (1/2)))"
    by (rule east_ray_loop_step) (rule toCode_values | simp add: float_max_def pm)+
  finally show ?thesis by (simp add: east_ray_loop_stop)
qed

lemma first_point:
  "computeUpdatePoint example_tree (- (3/2), 1/2, 1/2) (3/2, 1/2, 1/2) (- 1) [] =
     Some [(Code 57 0, 1), (Code 48 0, - (1/2)), (Code 49 0, - (1/2)), (Code 56 0, - (1/2))]"
proof -
  have n: "norm3 (vsub (3/2, 1/2, 1/2) (- (3/2), 1/2, 1/2)) = 3"
    by (simp add: norm3_def real_sqrt_unique)
  have mv: "moveLineIntoBBX example_tree (- (3/2), 1/2, 1/2) (3/2, 1/2, 1/2) =
              Some ((- (3/2), 1/2, 1/2), (3/2, 1/2, 1/2))"
    by code_simp
  have init: "computeRayInit example_tree (- (3/2), 1/2, 1/2) (3/2, 1/2, 1/2) (1, 0, 0) 0 = east_ray 0 3 (1/2)"
    unfolding east_ray_def by code_simp
  have kc: "toCode (coordToKey example_tree (3/2, 1/2, 1/2) 0) = Code 57 0"
    by code_simp
  have pm: "prob_hit_log example_tree = 1"
    by (simp add: example_tree_def)
  show ?thesis
    unfolding computeUpdatePoint_def Let_def n
    by (simp add: mv init kc pm east_loop_to_3 try_emplace_def del: coordToKey.simps)
qed

lemma second_point:
  "computeUpdatePoint example_tree (- (3/2), 1/2, 1/2) (1/2, 1/2, 1/2) (- 1)
     [(Code 57 0, 1), (Code 48 0, - (1/2)), (Code 49 0, - (1/2)), (Code 56 0, - (1/2))] =
     Some [(Code 57 0, 1), (Code 48 0, - (1/2)), (Code 49 0, - (1/2)), (Code 56 0, 1)]"
proof -
  have n: "norm3 (vsub (1/2, 1/2, 1/2) (- (3/2), 1/2, 1/2)) = 2"
    by (simp add: norm3_def real_sqrt_unique)
  have mv: "moveLineIntoBBX example_tree (- (3/2), 1/2, 1/2) (1/2, 1/2, 1/2) =
              Some ((- (3/2), 1/2, 1/2), (1/2, 1/2, 1/2))"
    by code_simp
  have init: "computeRayInit example_tree (- (3/2), 1/2, 1/2) (1/2, 1/2, 1/2) (1, 0, 0) 0 = east_ray 0 2 (1/2)"
    unfolding east_ray_def by code_simp
  have kc: "toCode (coordToKey example_tree (1/2, 1/2, 1/2) 0) = Code 56 0"
    by code_simp
  have pm: "prob_hit_log example_tree = 1"
    by (simp add: example_tree_def)
  show ?thesis
    unfolding computeUpdatePoint_def Let_def n
    by (simp add: mv init kc pm east_loop_to_2 try_emplace_def del: coordToKey.simps)
qed

lemma computeRayLoop_step:
  "current s \<noteq> ending s \<Longrightarrow> min3 (t_max s) \<le> d \<Longrightarrow>
   computeRayLoop d depth s ray = computeRayLoop d depth (computeRayTakeStep s depth) (ray @ [current s])"
  by (subst computeRayLoop.simps) simp

lemma computeRayLoop_stop:
  "current s = ending s \<Longrightarrow> computeRayLoop d depth s ray = Some ray"
  by (subst computeRayLoop.simps) simp

lemma east_ray_keys_step:
  assumes "x \<noteq> e" and "a \<le> d" and "a \<le> float_max" and "x < 100"
    and "x' = x + 1" and "a' = a + 1"
  shows "computeRayLoop d 0 (east_ray x e a) ray =
         computeRayLoop d 0 (east_ray x' e a') (ray @ [Key x 2 2 0])"
proof -
  have "min3 (t_max (east_ray x e a)) \<le> d" using assms(2,3) by (simp add: east_ray_def)
  moreover have "current (east_ray x e a) \<noteq> ending (east_ray x e a)"
    using assms(1) by (simp add: east_ray_def)
  moreover have "current (east_ray x e a) = Key x 2 2 0" by (simp add: east_ray_def)
  ultimately show ?thesis
    using computeRayLoop_step[of "east_ray x e a" d 0 ray] east_ray_step[OF assms(3,4), of e] assms(5,6)
    by simp
qed

lemma east_ray_keys_stop: "computeRayLoop d 0 (east_ray e e a) ray = Some ray"
  by (rule computeRayLoop_stop) (simp add: east_ray_def)

lemma east_keys_to_3:
  "computeRayLoop 3 0 (east_ray 0 3 (1/2)) [] = Some [Key 0 2 2 0, Key 1 2 2 0, Key 2 2 2 0]"
proof -
  have "computeRayLoop 3 0 (east_ray 0 3 (1/2)) [] =
        computeRayLoop 3 0 (east_ray 1 3 (3/2)) ([] @ [Key 0 2 2 0])"
    by (rule east_ray_keys_step) (simp_all add: float_max_def)
  also have "\<dots> = computeRayLoop 3 0 (east_ray 2 3 (5/2)) (([] @ [Key 0 2 2 0]) @ [Key 1 2 2 0])"
    by (rule east_ray_keys_step) (simp_all add: float_max_def)
  also have "\<dots> = computeRayLoop 3 0 (east_ray 3 3 (7/2))
                     ((([] @ [Key 0 2 2 0]) @ [Key 1 2 2 0]) @ [Key 2 2 2 0])"
    by (rule east_ray_keys_step) (simp_all add: float_max_def)
  finally show ?thesis by (simp add: east_ray_keys_stop)
qed

lemma east_keys_to_2:
  "computeRayLoop 2 0 (east_ray 0 2 (1/2)) [] = Some [Key 0 2 2 0, Key 1 2 2 0]"
proof -
  have "computeRayLoop 2 0 (east_ray 0 2 (1/2)) [] =
        computeRayLoop 2 0 (east_ray 1 2 (3/2)) ([] @ [Key 0 2 2 0])"
    by (rule east_ray_keys_step) (simp_all add: float_max_def)
  also have "\<dots> = computeRayLoop 2 0 (east_ray 2 2 (5/2)) (([] @ [Key 0 2 2 0]) @ [Key 1 2 2 0])"
    by (rule east_ray_keys_step) (simp_all add: float_max_def)
  finally show ?thesis by (simp add: east_ray_keys_stop)
qed

lemma first_point_cells:
  "endpointCode example_tree (- (3/2), 1/2, 1/2) (- 1) (3/2, 1/2, 1/2) = Some (Code 57 0)"
  "traversedCodes example_tree (- (3/2), 1/2, 1/2) (- 1) (3/2, 1/2, 1/2) =
     [Code 48 0, Code 49 0, Code 56 0]"
proof -
  have n: "norm3 (vsub (3/2, 1/2, 1/2) (- (3/2), 1/2, 1/2)) = 3"
    by (simp add: norm3_def real_sqrt_unique)
  have mv: "moveLineIntoBBX example_tree (- (3/2), 1/2, 1/2) (3/2, 1/2, 1/2) =
              Some ((- (3/2), 1/2, 1/2), (3/2, 1/2, 1/2))"
    by code_simp
  have init: "computeRayInit example_tree (- (3/2), 1/2, 1/2) (3/2, 1/2, 1/2) (1, 0, 0) 0 = east_ray 0 3 (1/2)"
    unfolding east_ray_def by code_simp
  have kc: "toCode (coordToKey example_tree (3/2, 1/2, 1/2) 0) = Code 57 0"
    by code_simp
  show "endpointCode example_tree (- (3/2), 1/2, 1/2) (- 1) (3/2, 1/2, 1/2) = Some (Code 57 0)"
    unfolding endpointCode_def Let_def n by (simp add: mv kc del: coordToKey.simps)
  show "traversedCodes example_tree (- (3/2), 1/2, 1/2) (- 1) (3/2, 1/2, 1/2) =
     [Code 48 0, Code 49 0, Code 56 0]"
    unfolding traversedCodes_def Let_def n
    by (simp add: mv init east_keys_to_3 toCode_values toCode_values[unfolded One_nat_def] del: coordToKey.simps)
qed

lemma second_point_cells:
  "endpointCode example_tree (- (3/2), 1/2, 1/2) (- 1) (1/2, 1/2, 1/2) = Some (Code 56 0)"
  "traversedCodes example_tree (- (3/2), 1/2, 1/2) (- 1) (1/2, 1/2, 1/2) = [Code 48 0, Code 49 0]"
proof -
  have n: "norm3 (vsub (1/2, 1/2, 1/2) (- (3/2), 1/2, 1/2)) = 2"
    by (simp add: norm3_def real_sqrt_unique)
  have mv: "moveLineIntoBBX example_tree (- (3/2), 1/2, 1/2) (1/2, 1/2, 1/2) =
              Some ((- (3/2), 1/2, 1/2), (1/2, 1/2, 1/2))"
    by code_simp
  have init: "computeRayInit example_tree (- (3/2), 1/2, 1/2) (1/2, 1/2, 1/2) (1, 0, 0) 0 = east_ray 0 2 (1/2)"
    unfolding east_ray_def by code_simp
  have kc: "toCode (coordToKey example_tree (1/2, 1/2, 1/2) 0) = Code 56 0"
    by code_simp
  show "endpointCode example_tree (- (3/2), 1/2, 1/2) (- 1) (1/2, 1/2, 1/2) = Some (Code 56 0)"
    unfolding endpointCode_def Let_def n by (simp add: mv kc del: coordToKey.simps)
  show "traversedCodes example_tree (- (3/2), 1/2, 1/2) (- 1) (1/2, 1/2, 1/2) = [Code 48 0, Code 49 0]"
    unfolding traversedCodes_def Let_def n
    by (simp add: mv init east_keys_to_2 toCode_values toCode_values[unfolded One_nat_def] del: coordToKey.simps)
qed

text \<open>
  Claim C3 as stated lets the first write to a cell win. From the sensor in the cell of x key
  0, the ray to the first point records a miss for the cell of code 56 on its way; the second
  point lies in that cell, and its hit replaces the miss: the later write wins.
\<close>

theorem later_hit_overrides_miss:
  "computeUpdate example_tree (- (3/2), 1/2, 1/2) [(3/2, 1/2, 1/2)] (- 1) [] =
     Some [(Code 57 0, 1), (Code 48 0, - (1/2)), (Code 49 0, - (1/2)), (Code 56 0, - (1/2))] \<and>
   computeUpdate example_tree (- (3/2), 1/2, 1/2) [(3/2, 1/2, 1/2), (1/2, 1/2, 1/2)] (- 1) [] =
     Some [(Code 57 0, 1), (Code 48 0, - (1/2)), (Code 49 0, - (1/2)), (Code 56 0, 1)]"
  by (simp add: first_point second_point)

theorem insertPointCloud_accumulator_witness:
  "0 < getNodeSize example_tree 0 \<and> indices example_tree = [] \<and>
   hit_codes example_tree (- (3/2), 1/2, 1/2) (- 1) [(3/2, 1/2, 1/2), (1/2, 1/2, 1/2)] =
     {Code 57 0, Code 56 0} \<and>
   miss_codes example_tree (- (3/2), 1/2, 1/2) (- 1) [(3/2, 1/2, 1/2), (1/2, 1/2, 1/2)] =
     {Code 48 0, Code 49 0, Code 56 0} \<and>
   (\<exists>acc. computeUpdate example_tree (- (3/2), 1/2, 1/2) [(3/2, 1/2, 1/2), (1/2, 1/2, 1/2)] (- 1)
            (indices example_tree) = Some acc \<and>
          distinct (map fst acc) \<and>
          map_of acc (Code 57 0) = Some (prob_hit_log example_tree) \<and>
          map_of acc (Code 56 0) = Some (prob_hit_log example_tree) \<and>
          map_of acc (Code 48 0) = Some (prob_miss_log example_tree) \<and>
          map_of acc (Code 49 0) = Some (prob_miss_log example_tree) \<and>
          map_of acc (Code 50 0) = None)"
proof -
  have h: "0 < getNodeSize example_tree 0" "indices example_tree = []"
    by (simp_all add: getNodeSize_def example_tree_def)
  have hc: "hit_codes example_tree (- (3/2), 1/2, 1/2) (- 1) [(3/2, 1/2, 1/2), (1/2, 1/2, 1/2)] =
     {Code 57 0, Code 56 0}"
    unfolding hit_codes_def by (auto simp: first_point_cells(1) second_point_cells(1))
  have mc: "miss_codes example_tree (- (3/2), 1/2, 1/2) (- 1) [(3/2, 1/2, 1/2), (1/2, 1/2, 1/2)] =
     {Code 48 0, Code 49 0, Code 56 0}"
    unfolding miss_codes_def by (auto simp: first_point_cells(2) second_point_cells(2))
  from insertPointCloud_accumulator[OF h, of "(- (3/2), 1/2, 1/2)" "[(3/2, 1/2, 1/2), (1/2, 1/2, 1/2)]" "- 1"]
  obtain acc where a: "computeUpdate example_tree (- (3/2), 1/2, 1/2) [(3/2, 1/2, 1/2), (1/2, 1/2, 1/2)] (- 1)
            (indices example_tree) = Some acc" "distinct (map fst acc)"
    and q: "\<And>c. map_of acc c =
              (if c \<in> hit_codes example_tree (- (3/2), 1/2, 1/2) (- 1) [(3/2, 1/2, 1/2), (1/2, 1/2, 1/2)]
               then Some (prob_hit_log example_tree)
               else if c \<in> miss_codes example_tree (- (3/2), 1/2, 1/2) (- 1) [(3/2, 1/2, 1/2), (1/2, 1/2, 1/2)]
               then Some (prob_miss_log example_tree) else None)"
    by blast
  have "map_of acc (Code 57 0) = Some (prob_hit_log example_tree)"
    "map_of acc (Code 56 0) = Some (prob_hit_log example_tree)"
    "map_of acc (Code 48 0) = Some (prob_miss_log example_tree)"
    "map_of acc (Code 49 0) = Some (prob_miss_log example_tree)"
    "map_of acc (Code 50 0) = None"
    unfolding q hc mc by simp_all
  with a h hc mc show ?thesis by blast
qed


subsection \<open>Reading\<close>

lemma readNodes_succeeds: "fst (readNodes t bv nd d o1 f1 s) = True"
  by (simp add: readNodes_def Let_def split_beta)

lemma readDataPlain_cases:
  assumes "readDataPlain t s bv res dl occ free bin = Inr (False, t')"
  shows "t' = t"
proof (cases "bin \<and> \<not> binarySupport t")
  case True
  with assms show ?thesis by (simp add: readDataPlain_def)
next
  case False
  then have nb: "\<not> bin" by (simp add: binarySupport_def)
  have ok: "fst (readNodes t2 bv (root_node t2) (depth_levels t2) (logit occ) (logit free) s)" for t2
    by (simp add: readNodes_succeeds)
  show ?thesis
  proof (cases "resolution t \<noteq> res \<or> depth_levels t \<noteq> dl")
    case False
    with assms nb ok[of t] show ?thesis
      by (simp add: readDataPlain_def split_beta)
  next
    case True
    show ?thesis
    proof (cases "clear t res dl")
      case (Inl e)
      with assms nb True show ?thesis by (auto simp: readDataPlain_def)
    next
      case (Inr t0)
      with assms nb True ok[of "t0\<lparr>root_node := default_node\<rparr>"] show ?thesis
        by (auto simp: readDataPlain_def split_beta)
    qed
  qed
qed

text \<open>
  Failed reads that keep the tree.  A failing \<open>readData\<close> leaves the tree as it was whenever
  the resolution and the number of depth levels passed to it are those of the tree, and a
  failing \<open>read\<close> leaves it as it was whenever it fails before it calls \<open>readData\<close> (first
  line, header, its own decompression), or the header carries the resolution and depth levels
  of the tree.  (Reading the nodes themselves never reports failure.)
\<close>

lemma read_failure_keeps_tree:
  "(readData cdc t s bv res dl occ free n cmp bin = Inr (False, t') \<and>
      resolution t = res \<and> depth_levels t = dl \<longrightarrow> t' = t) \<and>
   (read_octree cdc t s = Inr (False, t') \<and>
      (case read_preamble t s of
         None \<Rightarrow> True
       | Some (h, body) \<Rightarrow>
           (h_resolution h = resolution t \<and> h_depth_levels h = depth_levels t) \<or>
           (compressed h \<and> decompressData cdc body (uncompressed_data_size h) = None))
      \<longrightarrow> t' = t)"
proof -
  have A: "t' = t"
    if "readData cdc t s bv res dl occ free n cmp bin = Inr (False, t')"
      and "resolution t = res" and "depth_levels t = dl" for s bv res dl occ free n cmp bin
  proof (cases "bin \<and> \<not> binarySupport t")
    case True
    with that(1) show ?thesis by (simp add: readData_def)
  next
    case nb: False
    show ?thesis
    proof (cases cmp)
      case False
      with that(1) nb have "readDataPlain t s bv res dl occ free bin = Inr (False, t')"
        by (simp add: readData_def)
      then show ?thesis by (rule readDataPlain_cases)
    next
      case True
      show ?thesis
      proof (cases "decompressData cdc s n")
        case None
        with that nb True show ?thesis by (simp add: readData_def)
      next
        case (Some u)
        with that nb True have "readDataPlain t u bv res dl occ free bin = Inr (False, t')"
          by (simp add: readData_def)
        then show ?thesis by (rule readDataPlain_cases)
      qed
    qed
  qed
  have B: "t' = t"
    if r: "read_octree cdc t s = Inr (False, t')"
      and p: "case read_preamble t s of
         None \<Rightarrow> True
       | Some (h, body) \<Rightarrow>
           (h_resolution h = resolution t \<and> h_depth_levels h = depth_levels t) \<or>
           (compressed h \<and> decompressData cdc body (uncompressed_data_size h) = None)"
  proof (cases "read_preamble t s")
    case None
    with r show ?thesis by (simp add: read_octree_def)
  next
    case (Some hb)
    obtain h body where hb: "hb = (h, body)" by (cases hb)
    from p Some hb have pd:
      "(h_resolution h = resolution t \<and> h_depth_levels h = depth_levels t) \<or>
       (compressed h \<and> decompressData cdc body (uncompressed_data_size h) = None)"
      by simp
    show ?thesis
    proof (cases "compressed h")
      case False
      with pd have eq: "resolution t = h_resolution h" "depth_levels t = h_depth_levels h"
        by simp_all
      from False r Some hb have "readData cdc t body [] (h_resolution h) (h_depth_levels h)
              (h_occupancy_thres h) (h_free_thres h) (uncompressed_data_size h)
              (compressed h) (binary h) = Inr (False, t')"
        by (simp add: read_octree_def)
      from A[OF this eq] show ?thesis .
    next
      case True
      show ?thesis
      proof (cases "decompressData cdc body (uncompressed_data_size h)")
        case None
        with r Some hb True show ?thesis by (simp add: read_octree_def)
      next
        case (Some u)
        with pd have eq: "resolution t = h_resolution h" "depth_levels t = h_depth_levels h"
          by simp_all
        from Some r \<open>read_preamble t s = Some hb\<close> hb True
        have "readData cdc t u [] (h_resolution h) (h_depth_levels h)
              (h_occupancy_thres h) (h_free_thres h) (uncompressed_data_size h)
              (compressed h) (binary h) = Inr (False, t')"
          by (simp add: read_octree_def)
        from A[OF this eq] show ?thesis .
      qed
    qed
  qed
  from A B show ?thesis by blast
qed

lemma read_failure_keeps_hit_tree:
  "readData example_codec hit_tree [] [] 1 2 (1/2) (1/2) 16 True False = Inr (False, hit_tree) \<and>
   resolution hit_tree = 1 \<and> depth_levels hit_tree = 2 \<and>
   read_octree example_codec hit_tree [] = Inr (False, hit_tree) \<and>
   read_preamble hit_tree [] = None"
proof -
  have f: "resolution hit_tree = 1" "depth_levels hit_tree = 2"
    by code_simp+
  have d: "decompressData example_codec [] 16 = None"
    by (simp add: decompressData_def example_codec_def)
  have h1: "readData example_codec hit_tree [] [] 1 2 (1/2) (1/2) 16 True False = Inr (False, hit_tree)"
    by (simp add: readData_def binarySupport_def f d)
  have p: "read_preamble hit_tree [] = None"
    by code_simp
  have h2: "read_octree example_codec hit_tree [] = Inr (False, hit_tree)"
    by (simp add: read_octree_def p)
  from read_failure_keeps_tree[of example_codec hit_tree "[]" "[]" 1 2 "1/2" "1/2" 16 True False hit_tree]
    h1 h2 f p
  show ?thesis by simp
qed

lemma clear_depth:
  assumes "dl \<le> 21"
  shows "\<exists>t0. clear r res dl = Inr t0 \<and> depth_levels t0 = dl"
  using assms by (simp add: clear_def Let_def split_beta)

text \<open>
  \<open>read\<close> decompresses a compressed body and then passes \<open>compressed\<close> on to \<open>readData\<close>,
  which clears a tree of another resolution and decompresses once more: when this second
  decompression fails, \<open>read\<close> returns false, and the tree is empty.
\<close>

lemma read_compressed_clears_tree:
  assumes "read_preamble t s = Some (h, body)" and "compressed h" and "\<not> binary h"
    and "decompressData cdc body (uncompressed_data_size h) = Some u"
    and "decompressData cdc u (uncompressed_data_size h) = None"
    and "resolution t \<noteq> h_resolution h" and "h_depth_levels h \<le> 21"
  shows "\<exists>t0. clear t (h_resolution h) (h_depth_levels h) = Inr t0 \<and>
              read_octree cdc t s = Inr (False, t0\<lparr>root_node := default_node\<rparr>)"
proof -
  from clear_depth[OF assms(7), of t "h_resolution h"]
  obtain t0 where "clear t (h_resolution h) (h_depth_levels h) = Inr t0" by blast
  with assms show ?thesis
    by (simp add: read_octree_def readData_def)
qed

text \<open>
  Claim C9 (failed reads) does not hold of the code.  \<open>readData\<close> clears the tree and
  replaces the root as soon as the resolution or the number of depth levels passed to it
  differ from the tree's, and only then decompresses the data; when the decompression fails
  it returns false with the tree already emptied.  \<open>hit_tree\<close> has resolution 1 and stores
  logit 1 in the leaf with code 0; \<open>readData\<close> called on it with resolution 2, on a
  compressed stream the codec rejects, returns false, and the leaf stores 0 afterwards.
  (\<open>read\<close> reaches this decompression for every compressed file, since it passes
  \<open>compressed\<close> on to \<open>readData\<close> after it has decompressed the data itself.)
\<close>

theorem readData_failure_clears_tree:
  "(case readData example_codec hit_tree [] [] 2 2 (1/2) (1/2) 16 True False of
      Inl e \<Rightarrow> False
    | Inr (ok, t') \<Rightarrow> \<not> ok \<and> node_logit (deref (getNode t' (Code 0 0) False)) = 0) \<and>
   node_logit (deref (getNode hit_tree (Code 0 0) False)) = 1"
proof -
  have f: "resolution hit_tree = 1" "depth_levels hit_tree = 2"
    by code_simp+
  have d: "decompressData example_codec [] 16 = None"
    by (simp add: decompressData_def example_codec_def)
  have c: "case clear hit_tree 2 2 of
             Inl e \<Rightarrow> False
           | Inr t0 \<Rightarrow> node_logit (deref (getNode (t0\<lparr>root_node := default_node\<rparr>) (Code 0 0) False)) = 0"
    by code_simp
  have b: "node_logit (deref (getNode hit_tree (Code 0 0) False)) = 1"
    by code_simp
  from c b show ?thesis
    by (cases "clear hit_tree 2 2") (simp_all add: readData_def binarySupport_def f d)
qed

theorem readData_failure_clears_tree_witness:
  "resolution hit_tree = 1 \<and> depth_levels hit_tree = 2 \<and>
   decompressData example_codec [] 16 = None \<and>
   (\<exists>t'. readData example_codec hit_tree [] [] 2 2 (1/2) (1/2) 16 True False = Inr (False, t') \<and>
         node_logit (deref (getNode t' (Code 0 0) False)) = 0 \<and>
         node_logit (deref (getNode hit_tree (Code 0 0) False)) = 1)"
proof -
  have f: "resolution hit_tree = 1" "depth_levels hit_tree = 2"
    by code_simp+
  have d: "decompressData example_codec [] 16 = None"
    by (simp add: decompressData_def example_codec_def)
  from readData_failure_clears_tree
  have "\<exists>t'. readData example_codec hit_tree [] [] 2 2 (1/2) (1/2) 16 True False = Inr (False, t') \<and>
         node_logit (deref (getNode t' (Code 0 0) False)) = 0 \<and>
         node_logit (deref (getNode hit_tree (Code 0 0) False)) = 1"
    by (cases "readData example_codec hit_tree [] [] 2 2 (1/2) (1/2) 16 True False") auto
  with f d show ?thesis by blast
qed


subsection \<open>Reading the header back\<close>

lemma take_word_text:
  assumes "\<forall>c \<in> set w. \<not> is_space c" and "is_space sp"
  shows "take_word (put_text w @ Chr sp # s) = (w, Chr sp # s)"
  using assms by (induction w) (simp_all add: put_text_def)

lemma next_token_text:
  assumes "w \<noteq> []" and "\<forall>c \<in> set w. \<not> is_space c" and "is_space sp"
  shows "next_token (put_text w @ Chr sp # s) = (Word w, Chr sp # s)"
proof -
  obtain c w' where w: "w = c # w'" using assms(1) by (cases w) auto
  have "take_word (Chr c # put_text w' @ Chr sp # s) = (w, Chr sp # s)"
    using take_word_text[OF assms(2,3), of s] by (simp add: w put_text_def)
  with assms(2) show ?thesis
    by (simp add: next_token_def w put_text_def)
qed

lemma next_token_space:
  "is_space sp \<Longrightarrow> next_token (Chr sp # s) = next_token s"
  by (simp add: next_token_def)

lemma next_token_number: "next_token (Num x # s) = (Number x, s)"
  by (simp add: next_token_def)

lemma skip_line_text:
  assumes "newline \<notin> set w"
  shows "skip_line (put_text w @ Chr newline # s) = s"
  using assms by (induction w) (auto simp: put_text_def)

lemma getline_text:
  assumes "newline \<notin> set w"
  shows "getline (put_text w @ Chr newline # s) = (put_text w, s)"
  using assms by (induction w) (auto simp: put_text_def)

lemma space_simps: "is_space CHR '' ''" "is_space newline"
  by (simp_all add: is_space_def)

lemma readHeaderStep_space:
  "is_space sp \<Longrightarrow> readHeaderStep h (Chr sp # s) = readHeaderStep h s"
  by (simp add: readHeaderStep_def next_token_space)

lemma step_comment:
  assumes "newline \<notin> set w"
  shows "readHeaderStep h (Chr CHR ''#'' # Chr CHR '' '' # put_text w @ Chr newline # s) = More h s"
proof -
  have "next_token (put_text ''#'' @ Chr CHR '' '' # put_text w @ Chr newline # s) =
          (Word ''#'', Chr CHR '' '' # put_text w @ Chr newline # s)"
    by (rule next_token_text) (simp_all add: is_space_def newline_def)
  moreover have "skip_line (Chr CHR '' '' # put_text w @ Chr newline # s) = s"
    using skip_line_text[OF assms, of s] by (simp add: newline_def)
  ultimately show ?thesis
    by (simp add: readHeaderStep_def put_text_def)
qed

lemma step_comment_empty:
  "readHeaderStep h (Chr CHR ''#'' # Chr newline # s) = More h s"
proof -
  have "next_token (put_text ''#'' @ Chr newline # s) = (Word ''#'', Chr newline # s)"
    by (rule next_token_text) (simp_all add: is_space_def newline_def)
  then show ?thesis
    by (simp add: readHeaderStep_def put_text_def)
qed

lemma get_word_text:
  assumes "w \<noteq> []" and "\<forall>c \<in> set w. \<not> is_space c"
  shows "get_word (Chr CHR '' '' # put_text w @ Chr newline # s) = Some (w, Chr newline # s)"
  using next_token_text[OF assms space_simps(2), of s]
  by (simp add: get_word_def next_token_space space_simps)

lemma get_number_num: "get_number (Chr CHR '' '' # Num x # s) = Some (x, s)"
  by (simp add: get_number_def next_token_space space_simps next_token_number)

lemma key_token:
  assumes "w \<noteq> []" and "\<forall>c \<in> set w. \<not> is_space c"
  shows "next_token (put_text w @ Chr CHR '' '' # s) = (Word w, Chr CHR '' '' # s)"
  using assms by (rule next_token_text) (rule space_simps)

lemma step_version:
  assumes "w \<noteq> []" and "\<forall>c \<in> set w. \<not> is_space c"
  shows "readHeaderStep h (put_text ''version'' @ Chr CHR '' '' # put_text w @ Chr newline # s) =
           More (h\<lparr>file_version := w\<rparr>) (Chr newline # s)"
proof -
  have "next_token (put_text ''version'' @ Chr CHR '' '' # put_text w @ Chr newline # s) =
          (Word ''version'', Chr CHR '' '' # put_text w @ Chr newline # s)"
    by (rule key_token) (simp_all add: is_space_def newline_def)
  then show ?thesis
    by (simp add: readHeaderStep_def get_word_text[OF assms])
qed

lemma step_id:
  assumes "w \<noteq> []" and "\<forall>c \<in> set w. \<not> is_space c"
  shows "readHeaderStep h (put_text ''id'' @ Chr CHR '' '' # put_text w @ Chr newline # s) =
           More (h\<lparr>id := w\<rparr>) (Chr newline # s)"
proof -
  have "next_token (put_text ''id'' @ Chr CHR '' '' # put_text w @ Chr newline # s) =
          (Word ''id'', Chr CHR '' '' # put_text w @ Chr newline # s)"
    by (rule key_token) (simp_all add: is_space_def newline_def)
  then show ?thesis
    by (simp add: readHeaderStep_def get_word_text[OF assms])
qed

lemma step_binary:
  "readHeaderStep h (put_text ''binary'' @ Chr CHR '' '' # Num 0 # s) = More (h\<lparr>binary := False\<rparr>) s"
proof -
  have "next_token (put_text ''binary'' @ Chr CHR '' '' # Num 0 # s) =
          (Word ''binary'', Chr CHR '' '' # Num 0 # s)"
    by (rule key_token) (simp_all add: is_space_def newline_def)
  then show ?thesis
    by (simp add: readHeaderStep_def get_bool_def get_number_num)
qed

lemma step_resolution:
  "readHeaderStep h (put_text ''resolution'' @ Chr CHR '' '' # Num x # s) = More (h\<lparr>h_resolution := x\<rparr>) s"
proof -
  have "next_token (put_text ''resolution'' @ Chr CHR '' '' # Num x # s) =
          (Word ''resolution'', Chr CHR '' '' # Num x # s)"
    by (rule key_token) (simp_all add: is_space_def newline_def)
  then show ?thesis
    by (simp add: readHeaderStep_def get_number_num)
qed

lemma round_half_even_bounds:
  "of_int (round_half_even x) \<le> x + 1 / 2" "x - 1 / 2 \<le> of_int (round_half_even x)"
  unfolding round_half_even_def Let_def by (auto; linarith)+

lemma round_half_even_of_int: "round_half_even (of_int i) = i"
  by (simp add: round_half_even_def)

lemma round_half_even_pos: "1 \<le> x \<Longrightarrow> 0 < round_half_even x"
  using round_half_even_bounds(2)[of x] by linarith

lemma print_float_pos:
  assumes "0 < x"
  shows "0 < print_float x"
proof -
  define e where "e = \<lfloor>log 10 \<bar>x\<bar>\<rfloor>"
  define q where "q = (10::real) powr (of_int e - 5)"
  have q: "0 < q" by (simp add: q_def)
  have "of_int e \<le> log 10 x" using assms by (simp add: e_def)
  then have "10 powr (of_int e) \<le> x"
    using assms by (simp add: le_log_iff)
  moreover have "q \<le> 10 powr (of_int e)"
    unfolding q_def by (rule powr_mono) simp_all
  ultimately have "1 \<le> x / q" using q by (simp add: pos_le_divide_eq)
  then have "0 < round_half_even (x / q)" by (rule round_half_even_pos)
  then have "0 < of_int (round_half_even (x / q)) * q" using q by simp
  then show ?thesis
    using assms by (simp add: print_float_def Let_def e_def q_def)
qed

lemma print_float_nonneg: "0 \<le> x \<Longrightarrow> 0 \<le> print_float x"
  using print_float_pos[of x] by (cases "x = 0") (simp_all add: print_float_def)

lemma print_float_one: "print_float 1 = 1"
proof -
  have p: "(10::real) powr (- 5) = 1 / 100000"
    using powr_minus[of "10::real" 5] powr_numeral[of "10::real" "num.Bit1 (num.Bit0 num.One)"]
    by (simp add: inverse_eq_divide)
  have "(1::real) / 10 powr (- 5) = of_int 100000"
    unfolding p by simp
  then have "round_half_even (1 / 10 powr (- 5)) = 100000"
    by (simp only: round_half_even_of_int)
  moreover have "(100000::real) * 10 powr (- 5) = 1"
    unfolding p by simp
  ultimately show ?thesis
    by (simp add: print_float_def)
qed

lemma to_int32_id: "0 \<le> i \<Longrightarrow> i < 2 ^ 31 \<Longrightarrow> to_int32 i = i"
  by (simp add: to_int32_def)

lemma to_int32_range: "- (2 ^ 31) \<le> to_int32 i" "to_int32 i < 2 ^ 31"
  unfolding to_int32_def
  using pos_mod_bound[of "2 ^ 32" "i + 2 ^ 31"] pos_mod_sign[of "2 ^ 32" "i + 2 ^ 31"] by simp_all

lemma step_depth_levels:
  assumes "n < 2 ^ 32"
  shows "readHeaderStep h (put_text ''depth_levels'' @ Chr CHR '' '' # Num (real n) # s) =
           More (h\<lparr>h_depth_levels := n\<rparr>) s"
proof -
  have "next_token (put_text ''depth_levels'' @ Chr CHR '' '' # Num (real n) # s) =
          (Word ''depth_levels'', Chr CHR '' '' # Num (real n) # s)"
    by (rule key_token) (simp_all add: is_space_def newline_def)
  moreover have "int n < 2 ^ 32" using assms by (metis of_nat_less_iff of_nat_numeral of_nat_power)
  moreover from this have "u32 (int n) = n" by (simp add: u32_def)
  ultimately show ?thesis
    by (simp add: readHeaderStep_def get_unsigned_def get_integer_def get_number_num)
qed

text \<open>A negative number of depth levels is read as a large one, which \<open>clear\<close> refuses.\<close>

lemma get_unsigned_negative:
  "get_unsigned (Chr CHR '' '' # Num (- 1) # s) = Some (4294967295, s)"
proof -
  have "(- 1 :: real) = of_int (- 1)" by simp
  then have "\<lfloor>- 1 :: real\<rfloor> = - 1" by (simp only: floor_of_int)
  then show ?thesis
    by (simp add: get_unsigned_def get_integer_def get_number_num u32_def)
qed

lemma step_occupancy_thres:
  "readHeaderStep h (put_text ''occupancy_thres'' @ Chr CHR '' '' # Num x # s) =
     More (h\<lparr>h_occupancy_thres := x\<rparr>) s"
proof -
  have "next_token (put_text ''occupancy_thres'' @ Chr CHR '' '' # Num x # s) =
          (Word ''occupancy_thres'', Chr CHR '' '' # Num x # s)"
    by (rule key_token) (simp_all add: is_space_def newline_def)
  then show ?thesis
    by (simp add: readHeaderStep_def get_number_num)
qed

lemma step_free_thres:
  "readHeaderStep h (put_text ''free_thres'' @ Chr CHR '' '' # Num x # s) =
     More (h\<lparr>h_free_thres := x\<rparr>) s"
proof -
  have "next_token (put_text ''free_thres'' @ Chr CHR '' '' # Num x # s) =
          (Word ''free_thres'', Chr CHR '' '' # Num x # s)"
    by (rule key_token) (simp_all add: is_space_def newline_def)
  then show ?thesis
    by (simp add: readHeaderStep_def get_number_num)
qed

lemma step_compressed:
  "readHeaderStep h (put_text ''compressed'' @ Chr CHR '' '' # Num 0 # s) =
     More (h\<lparr>compressed := False\<rparr>) s"
proof -
  have "next_token (put_text ''compressed'' @ Chr CHR '' '' # Num 0 # s) =
          (Word ''compressed'', Chr CHR '' '' # Num 0 # s)"
    by (rule key_token) (simp_all add: is_space_def newline_def)
  then show ?thesis
    by (simp add: readHeaderStep_def get_bool_def get_number_num)
qed

lemma step_uncompressed_data_size:
  assumes "- (2 ^ 31) \<le> n" and "n < 2 ^ 31"
  shows "readHeaderStep h (put_text ''uncompressed_data_size'' @ Chr CHR '' '' # Num (of_int n) # s) =
     More (h\<lparr>uncompressed_data_size := n\<rparr>) s"
proof -
  have "next_token (put_text ''uncompressed_data_size'' @ Chr CHR '' '' # Num (of_int n) # s) =
          (Word ''uncompressed_data_size'', Chr CHR '' '' # Num (of_int n) # s)"
    by (rule key_token) (simp_all add: is_space_def newline_def)
  with assms show ?thesis
    by (simp add: readHeaderStep_def get_int_def get_integer_def get_number_num)
qed

lemma step_data:
  "readHeaderStep h (put_text ''data'' @ Chr newline # s) = Done h s"
proof -
  have "next_token (put_text ''data'' @ Chr newline # s) = (Word ''data'', Chr newline # s)"
    by (rule next_token_text) (simp_all add: is_space_def newline_def)
  then show ?thesis
    by (simp add: readHeaderStep_def)
qed


lemma write_header_text:
  "write_header t False False n =
     put_text FILE_HEADER @ Chr newline #
     Chr CHR ''#'' # Chr CHR '' '' #
     put_text ''(feel free to add / change comments, but leave the first line as it is!)'' @ Chr newline #
     Chr CHR ''#'' # Chr newline #
     put_text ''version'' @ Chr CHR '' '' # put_text FILE_VERSION @ Chr newline #
     put_text ''id'' @ Chr CHR '' '' # put_text (tree_type t) @ Chr newline #
     put_text ''binary'' @ Chr CHR '' '' # Num 0 # Chr newline #
     put_text ''resolution'' @ Chr CHR '' '' # Num (print_float (resolution t)) # Chr newline #
     put_text ''depth_levels'' @ Chr CHR '' '' # Num (real (depth_levels t)) # Chr newline #
     put_text ''occupancy_thres'' @ Chr CHR '' '' # Num (print_float (getOccupancyThres t)) # Chr newline #
     put_text ''free_thres'' @ Chr CHR '' '' # Num (print_float (getFreeThres t)) # Chr newline #
     put_text ''compressed'' @ Chr CHR '' '' # Num 0 # Chr newline #
     put_text ''uncompressed_data_size'' @ Chr CHR '' '' # Num (of_int n) # Chr newline #
     put_text ''data'' @ [Chr newline]"
  by (simp add: write_header_def put_text_def endl_def)

lemma readHeaderLoop_More:
  "readHeaderStep h s = More h1 r \<Longrightarrow> readHeaderLoop (Suc k) h s = readHeaderLoop k h1 r"
  by simp

lemma readHeaderLoop_Done:
  "readHeaderStep h s = Done h1 r \<Longrightarrow> readHeaderLoop (Suc k) h s = Some (h1, r)"
  by simp

lemma probability_nonneg: "0 \<le> probability l"
proof -
  have "1 / (1 + exp l) \<le> 1" by (simp add: add_pos_nonneg)
  then show ?thesis by (simp add: probability_def)
qed

text \<open>The header that \<open>write\<close> produces for a tree, as \<open>readHeader\<close> collects it.\<close>

lemma read_preamble_write_header:
  assumes tt: "tree_type t \<noteq> []" "\<forall>c \<in> set (tree_type t). \<not> is_space c"
    and res: "0 < resolution t" and dl: "0 < depth_levels t" "depth_levels t < 2 ^ 32"
    and n: "0 \<le> n" "n < 2 ^ 31" and same: "tree_type r = tree_type t"
  shows "read_preamble r (write_header t False False n @ body) =
           Some (\<lparr>file_version = FILE_VERSION, id = tree_type t, binary = False,
                  h_resolution = print_float (resolution t), h_depth_levels = depth_levels t,
                  h_occupancy_thres = print_float (getOccupancyThres t),
                  h_free_thres = print_float (getFreeThres t),
                  compressed = False, uncompressed_data_size = n\<rparr>, body)"
proof -
  define s12 where "s12 = put_text ''data'' @ Chr newline # body"
  define s11 where "s11 = put_text ''uncompressed_data_size'' @ Chr CHR '' '' # Num (of_int n) # Chr newline # s12"
  define s10 where "s10 = put_text ''compressed'' @ Chr CHR '' '' # Num 0 # Chr newline # s11"
  define s9 where "s9 = put_text ''free_thres'' @ Chr CHR '' '' # Num (print_float (getFreeThres t)) # Chr newline # s10"
  define s8 where "s8 = put_text ''occupancy_thres'' @ Chr CHR '' '' # Num (print_float (getOccupancyThres t)) # Chr newline # s9"
  define s7 where "s7 = put_text ''depth_levels'' @ Chr CHR '' '' # Num (real (depth_levels t)) # Chr newline # s8"
  define s6 where "s6 = put_text ''resolution'' @ Chr CHR '' '' # Num (print_float (resolution t)) # Chr newline # s7"
  define s5 where "s5 = put_text ''binary'' @ Chr CHR '' '' # Num 0 # Chr newline # s6"
  define s4 where "s4 = put_text ''id'' @ Chr CHR '' '' # put_text (tree_type t) @ Chr newline # s5"
  define s3 where "s3 = put_text ''version'' @ Chr CHR '' '' # put_text FILE_VERSION @ Chr newline # s4"
  define s2 where "s2 = Chr CHR ''#'' # Chr newline # s3"
  define s1 where "s1 = Chr CHR ''#'' # Chr CHR '' '' #
     put_text ''(feel free to add / change comments, but leave the first line as it is!)'' @ Chr newline # s2"
  note defs = s1_def s2_def s3_def s4_def s5_def s6_def s7_def s8_def s9_def s10_def s11_def s12_def
  have whole: "write_header t False False n @ body = put_text FILE_HEADER @ Chr newline # s1"
    by (simp add: write_header_text defs)
  have line: "getline (put_text FILE_HEADER @ Chr newline # s1) = (put_text FILE_HEADER, s1)"
    by (rule getline_text) (simp add: FILE_HEADER_def newline_def)
  have fv: "FILE_VERSION \<noteq> []" "\<forall>c \<in> set FILE_VERSION. \<not> is_space c"
    by (simp_all add: FILE_VERSION_def is_space_def newline_def)
  have nl: "readHeaderStep h (Chr newline # s) = readHeaderStep h s" for h s
    by (rule readHeaderStep_space) (rule space_simps)
  have st1: "readHeaderStep h s1 = More h s2" for h
    unfolding s1_def by (rule step_comment) (simp add: newline_def)
  have st2: "readHeaderStep h s2 = More h s3" for h
    unfolding s2_def by (rule step_comment_empty)
  have st3: "readHeaderStep h s3 = More (h\<lparr>file_version := FILE_VERSION\<rparr>) (Chr newline # s4)" for h
    unfolding s3_def by (rule step_version[OF fv])
  have st4: "readHeaderStep h (Chr newline # s4) = More (h\<lparr>id := tree_type t\<rparr>) (Chr newline # s5)" for h
    unfolding s4_def nl by (rule step_id[OF tt])
  have st5: "readHeaderStep h (Chr newline # s5) = More (h\<lparr>binary := False\<rparr>) (Chr newline # s6)" for h
    unfolding s5_def nl by (rule step_binary)
  have st6: "readHeaderStep h (Chr newline # s6) = More (h\<lparr>h_resolution := print_float (resolution t)\<rparr>) (Chr newline # s7)" for h
    unfolding s6_def nl by (rule step_resolution)
  have st7: "readHeaderStep h (Chr newline # s7) = More (h\<lparr>h_depth_levels := depth_levels t\<rparr>) (Chr newline # s8)" for h
    unfolding s7_def nl by (rule step_depth_levels[OF dl(2)])
  have st8: "readHeaderStep h (Chr newline # s8) = More (h\<lparr>h_occupancy_thres := print_float (getOccupancyThres t)\<rparr>) (Chr newline # s9)" for h
    unfolding s8_def nl by (rule step_occupancy_thres)
  have st9: "readHeaderStep h (Chr newline # s9) = More (h\<lparr>h_free_thres := print_float (getFreeThres t)\<rparr>) (Chr newline # s10)" for h
    unfolding s9_def nl by (rule step_free_thres)
  have st10: "readHeaderStep h (Chr newline # s10) = More (h\<lparr>compressed := False\<rparr>) (Chr newline # s11)" for h
    unfolding s10_def nl by (rule step_compressed)
  have st11: "readHeaderStep h (Chr newline # s11) = More (h\<lparr>uncompressed_data_size := n\<rparr>) (Chr newline # s12)" for h
    unfolding s11_def nl by (rule step_uncompressed_data_size) (use n in simp_all)
  have st12: "readHeaderStep h (Chr newline # s12) = Done h body" for h
    unfolding s12_def nl by (rule step_data)
  define hdr where "hdr = \<lparr>file_version = FILE_VERSION, id = tree_type t, binary = False,
                  h_resolution = print_float (resolution t), h_depth_levels = depth_levels t,
                  h_occupancy_thres = print_float (getOccupancyThres t),
                  h_free_thres = print_float (getFreeThres t),
                  compressed = False, uncompressed_data_size = n\<rparr>"
  have loop: "readHeaderLoop (Suc (Suc (Suc (Suc (Suc (Suc (Suc (Suc (Suc (Suc (Suc (Suc k))))))))))))
                initial_header s1 = Some (hdr, body)" for k
    by (simp only: readHeaderLoop_More[OF st1] readHeaderLoop_More[OF st2] readHeaderLoop_More[OF st3]
          readHeaderLoop_More[OF st4] readHeaderLoop_More[OF st5] readHeaderLoop_More[OF st6]
          readHeaderLoop_More[OF st7] readHeaderLoop_More[OF st8] readHeaderLoop_More[OF st9]
          readHeaderLoop_More[OF st10] readHeaderLoop_More[OF st11] readHeaderLoop_Done[OF st12])
       (simp add: initial_header_def hdr_def)
  have "11 \<le> length s1"
    by (simp add: defs put_text_def)
  then have "Suc (length s1) = Suc (Suc (Suc (Suc (Suc (Suc (Suc (Suc (Suc (Suc (Suc (Suc (length s1 - 11))))))))))))"
    by simp
  then have "readHeaderLoop (Suc (length s1)) initial_header s1 = Some (hdr, body)"
    using loop[of "length s1 - 11"] by simp
  moreover have "0 \<le> print_float (getOccupancyThres t)" "0 \<le> print_float (getFreeThres t)"
    by (simp_all add: getOccupancyThres_def getFreeThres_def probability_nonneg print_float_nonneg)
  moreover have "0 < print_float (resolution t)"
    using res by (rule print_float_pos)
  ultimately have rh: "readHeader r s1 = Some (hdr, body)"
    using fv(1) tt(1) dl(1) n(1) same
    by (simp add: readHeader_def hdr_def binarySupport_def)
  have "length (put_text FILE_HEADER) = length FILE_HEADER"
    by (simp add: put_text_def)
  with rh line show ?thesis
    by (simp add: read_preamble_def whole hdr_def)
qed

subsection \<open>Lookups and summaries\<close>

lemma stored_logit_unfold:
  "stored_logit n d c =
     (if d > getDepth c then
        (if all_children_same n then node_logit n
         else stored_logit (children n ! getChildIdx c (d - 1)) (d - 1) c)
      else node_logit n)"
  unfolding stored_logit_def
  by (subst getNodeFrom.simps) (simp add: hasChildren_def deref_def)

lemma stored_logit_leaf:
  "all_children_same n \<Longrightarrow> stored_logit n d = (\<lambda>c. node_logit n)"
  by (rule ext) (subst stored_logit_unfold, simp)

lemma stored_logit_0: "stored_logit n 0 = (\<lambda>c. node_logit n)"
  by (rule ext) (subst stored_logit_unfold, simp)

lemma stored_logit_top:
  assumes "stored_logit a d = stored_logit b d"
  shows "node_logit a = node_logit b"
proof -
  have "stored_logit a d (Code 0 d) = stored_logit b d (Code 0 d)" using assms by simp
  then show ?thesis by (subst (asm) (1 2) stored_logit_unfold) simp
qed

lemma getChildIdx_less: "getChildIdx c d < 8"
  by (simp add: getChildIdx_def)

lemma stored_logit_cong:
  assumes "\<not> all_children_same a" "\<not> all_children_same b" "node_logit a = node_logit b"
    and "\<And>i. i < 8 \<Longrightarrow> stored_logit (children a ! i) d = stored_logit (children b ! i) d"
  shows "stored_logit a (Suc d) = stored_logit b (Suc d)"
proof
  fix c
  show "stored_logit a (Suc d) c = stored_logit b (Suc d) c"
    using assms(1-3) assms(4)[OF getChildIdx_less[of c d]]
    by (subst (1 2) stored_logit_unfold) simp
qed

lemma stored_logit_collapsed:
  assumes "\<not> all_children_same a" "all_children_same b" "node_logit a = node_logit b"
    and "\<And>i. i < 8 \<Longrightarrow> stored_logit (children a ! i) d = (\<lambda>c. node_logit b)"
  shows "stored_logit a (Suc d) = stored_logit b (Suc d)"
proof
  fix c
  show "stored_logit a (Suc d) c = stored_logit b (Suc d) c"
    using assms(1-3) assms(4)[OF getChildIdx_less[of c d]]
    by (subst (1 2) stored_logit_unfold) simp
qed

lemma fold_max_map:
  "fold (\<lambda>child m. if m < node_logit child then node_logit child else m) cs a =
   fold (\<lambda>x m. if m < x then x else m) (map node_logit cs) a"
  by (simp add: fold_map comp_def)

lemma fold_max_const:
  fixes a :: real
  assumes "\<forall>x \<in> set xs. x = l" "a \<le> l" "xs \<noteq> []"
  shows "fold (\<lambda>x m. if m < x then x else m) xs a = l"
  using assms
proof (induction xs arbitrary: a)
  case Nil
  then show ?case by simp
next
  case (Cons x xs)
  show ?case
  proof (cases "xs = []")
    case True
    with Cons.prems show ?thesis by auto
  next
    case False
    with Cons.prems Cons.IH[of "if a < x then x else a"] show ?thesis by auto
  qed
qed

lemma getMaxChildLogitInner_map:
  "map node_logit cs = map node_logit cs' \<Longrightarrow> getMaxChildLogitInner cs = getMaxChildLogitInner cs'"
  by (simp add: getMaxChildLogitInner_def fold_max_map)

lemma getMaxChildLogitLeaf_map:
  assumes "map node_logit cs = map node_logit cs'" "cs \<noteq> []"
  shows "getMaxChildLogitLeaf cs = getMaxChildLogitLeaf cs'"
proof -
  from assms have "cs' \<noteq> []" by auto
  with assms have "node_logit (cs ! 0) = node_logit (cs' ! 0)"
    by (metis length_greater_0_conv nth_map)
  with assms(1) show ?thesis by (simp add: getMaxChildLogitLeaf_def fold_max_map)
qed

lemma prune_sel:
  "all_children_same (fst (prune t n d m))" "node_logit (fst (prune t n d m)) = node_logit n"
  by (simp_all add: prune_def split_beta fst_deleteChildren)

lemma collapsible_leaf_logits:
  assumes "isNodeCollapsibleLeaf cs" "length cs = 8" "i < 8"
  shows "node_logit (cs ! i) = node_logit (cs ! 0)"
proof (cases "i = 0")
  case False
  with assms(3) have "i \<in> set [1..<8]" by simp
  with assms(1) show ?thesis unfolding isNodeCollapsibleLeaf_def list_all_iff by metis
qed simp

lemma collapsible_inner_logits:
  assumes "isNodeCollapsibleInner cs" "length cs = 8" "i < 8"
  shows "node_logit (cs ! i) = node_logit (cs ! 0) \<and> all_children_same (cs ! i)"
proof (cases "i = 0")
  case True
  with assms(1) show ?thesis by (simp add: isNodeCollapsibleInner_def isLeaf_def split: if_splits)
next
  case False
  with assms(3) have i: "i \<in> set [1..<8]" by simp
  from assms(1) have "list_all (\<lambda>i. \<not> (node_logit (cs ! 0) \<noteq> node_logit (cs ! i) \<or> \<not> isLeaf (cs ! i))) [1..<8]"
    by (simp add: isNodeCollapsibleInner_def split: if_splits)
  with i show ?thesis unfolding list_all_iff isLeaf_def by metis
qed


lemma updateNodeLeaf_sel:
  assumes "\<not> isNodeCollapsibleLeaf cs"
  shows "node_logit (fst (snd (updateNodeLeaf t n cs d))) = getMaxChildLogitLeaf cs"
    and "children (fst (snd (updateNodeLeaf t n cs d))) = children n"
    and "all_children_same (fst (snd (updateNodeLeaf t n cs d))) = all_children_same n"
  using assms by (auto simp: updateNodeLeaf_def Let_def)

lemma updateNodeInner_sel:
  assumes "\<not> isNodeCollapsibleInner cs"
  shows "node_logit (fst (snd (updateNodeInner t n cs d))) = getMaxChildLogitInner cs"
    and "children (fst (snd (updateNodeInner t n cs d))) = children n"
    and "all_children_same (fst (snd (updateNodeInner t n cs d))) = all_children_same n"
  using assms by (auto simp: updateNodeInner_def Let_def)

lemma updateNodeLeaf_collapsed:
  assumes "isNodeCollapsibleLeaf cs"
  shows "node_logit (fst (snd (updateNodeLeaf t n cs d))) = node_logit (cs ! 0)"
    and "all_children_same (fst (snd (updateNodeLeaf t n cs d)))"
  using assms by (simp_all add: updateNodeLeaf_def split_beta prune_sel)

lemma updateNodeInner_collapsed:
  assumes "isNodeCollapsibleInner cs"
  shows "node_logit (fst (snd (updateNodeInner t n cs d))) = node_logit (cs ! 0)"
    and "all_children_same (fst (snd (updateNodeInner t n cs d)))"
  using assms by (simp_all add: updateNodeInner_def split_beta prune_sel)

text \<open>
  After the children of a node have been read, \<open>updateNode\<close> makes the node answer lookups as
  the written node does, whether it collapses the node or not.
\<close>

lemma updateNode_stored:
  assumes m: "\<not> all_children_same m" "length (children m) = 8"
    and n: "\<not> all_children_same n" "length (children n) = 8"
    and kids: "\<And>i. i < 8 \<Longrightarrow> stored_logit (children m ! i) d = stored_logit (children n ! i) d"
    and sum: "node_logit n = (if d = 0 then getMaxChildLogitLeaf (children n)
                              else getMaxChildLogitInner (children n))"
    and low: "\<And>i. i < 8 \<Longrightarrow> float_lowest \<le> node_logit (children n ! i)"
  shows "stored_logit (fst (snd (updateNode tr m (Suc d)))) (Suc d) = stored_logit n (Suc d)"
proof -
  let ?cs = "children m"
  have logits: "node_logit (?cs ! i) = node_logit (children n ! i)" if "i < 8" for i
    using kids[OF that] by (rule stored_logit_top)
  have maps: "map node_logit ?cs = map node_logit (children n)"
    by (rule nth_equalityI) (simp_all add: m n logits)
  have ne: "?cs \<noteq> []" "map node_logit ?cs \<noteq> []" using m(2) by auto
  show ?thesis
  proof (cases "d = 0")
    case True
    let ?r = "fst (snd (updateNodeLeaf tr m ?cs (Suc d)))"
    have r: "updateNode tr m (Suc d) = updateNodeLeaf tr m ?cs (Suc d)"
      using True by (simp add: updateNode_def)
    have nl: "node_logit n = getMaxChildLogitLeaf ?cs"
      using sum True getMaxChildLogitLeaf_map[OF maps ne(1)] by metis
    show ?thesis
    proof (cases "isNodeCollapsibleLeaf ?cs")
      case coll: True
      have all: "\<forall>x \<in> set (map node_logit ?cs). x = node_logit (?cs ! 0)"
      proof
        fix x assume "x \<in> set (map node_logit ?cs)"
        then obtain i where i: "i < length ?cs" "x = node_logit (?cs ! i)"
          by (auto simp: in_set_conv_nth)
        with collapsible_leaf_logits[OF coll m(2), of i] m(2) show "x = node_logit (?cs ! 0)"
          by simp
      qed
      have "getMaxChildLogitLeaf ?cs = node_logit (?cs ! 0)"
        unfolding getMaxChildLogitLeaf_def fold_max_map
        by (rule fold_max_const[OF all _ ne(2)]) simp
      with nl have top: "node_logit n = node_logit ?r"
        by (simp add: updateNodeLeaf_collapsed[OF coll])
      have "stored_logit n (Suc d) = stored_logit ?r (Suc d)"
      proof (rule stored_logit_collapsed[OF n(1) updateNodeLeaf_collapsed(2)[OF coll] top])
        fix i :: nat assume i: "i < 8"
        have "stored_logit (children n ! i) d = stored_logit (?cs ! i) d"
          using kids[OF i] by simp
        also have "\<dots> = (\<lambda>c. node_logit (?cs ! i))"
          using True by (simp add: stored_logit_0)
        finally show "stored_logit (children n ! i) d = (\<lambda>c. node_logit ?r)"
          using collapsible_leaf_logits[OF coll m(2) i]
          by (simp add: updateNodeLeaf_collapsed[OF coll])
      qed
      then show ?thesis by (simp add: r)
    next
      case ncoll: False
      have "stored_logit ?r (Suc d) = stored_logit n (Suc d)"
        by (rule stored_logit_cong)
           (simp_all add: updateNodeLeaf_sel[OF ncoll] m n nl kids)
      then show ?thesis by (simp add: r)
    qed
  next
    case False
    let ?r = "fst (snd (updateNodeInner tr m ?cs (Suc d)))"
    have r: "updateNode tr m (Suc d) = updateNodeInner tr m ?cs (Suc d)"
      using False by (simp add: updateNode_def)
    have nl: "node_logit n = getMaxChildLogitInner ?cs"
      using sum False getMaxChildLogitInner_map[OF maps] by metis
    show ?thesis
    proof (cases "isNodeCollapsibleInner ?cs")
      case coll: True
      have all: "\<forall>x \<in> set (map node_logit ?cs). x = node_logit (?cs ! 0)"
      proof
        fix x assume "x \<in> set (map node_logit ?cs)"
        then obtain i where i: "i < length ?cs" "x = node_logit (?cs ! i)"
          by (auto simp: in_set_conv_nth)
        with collapsible_inner_logits[OF coll m(2), of i] m(2) show "x = node_logit (?cs ! 0)"
          by simp
      qed
      have "float_lowest \<le> node_logit (?cs ! 0)"
        using low[of 0] logits[of 0] by simp
      then have "getMaxChildLogitInner ?cs = node_logit (?cs ! 0)"
        unfolding getMaxChildLogitInner_def fold_max_map
        by (rule fold_max_const[OF all _ ne(2)])
      with nl have top: "node_logit n = node_logit ?r"
        by (simp add: updateNodeInner_collapsed[OF coll])
      have "stored_logit n (Suc d) = stored_logit ?r (Suc d)"
      proof (rule stored_logit_collapsed[OF n(1) updateNodeInner_collapsed(2)[OF coll] top])
        fix i :: nat assume i: "i < 8"
        have "stored_logit (children n ! i) d = stored_logit (?cs ! i) d"
          using kids[OF i] by simp
        also have "\<dots> = (\<lambda>c. node_logit (?cs ! i))"
          using collapsible_inner_logits[OF coll m(2) i] by (simp add: stored_logit_leaf)
        finally show "stored_logit (children n ! i) d = (\<lambda>c. node_logit ?r)"
          using collapsible_inner_logits[OF coll m(2) i]
          by (simp add: updateNodeInner_collapsed[OF coll])
      qed
      then show ?thesis by (simp add: r)
    next
      case ncoll: False
      have "stored_logit ?r (Suc d) = stored_logit n (Suc d)"
        by (rule stored_logit_cong)
           (simp_all add: updateNodeInner_sel[OF ncoll] m n nl kids)
      then show ?thesis by (simp add: r)
    qed
  qed
qed

subsection \<open>Loops over the children\<close>

text \<open>
  A loop over the eight children of a node that takes, for child \<open>i\<close>, the chunks \<open>W i\<close> from
  the stream and replaces the child.
\<close>

lemma fold_children:
  fixes F :: "nat \<Rightarrow> inner_node \<times> 'a \<times> chunk list \<Rightarrow> inner_node \<times> 'a \<times> chunk list"
  assumes step: "\<And>i inner tr rest'. i < 8 \<Longrightarrow> length (children inner) = 8 \<Longrightarrow>
            children inner ! i = children m ! i \<Longrightarrow> I tr \<Longrightarrow>
            \<exists>c' tr'. F i (inner, tr, W i @ rest') =
                        (set_children inner ((children inner)[i := c']), tr', rest') \<and> P i c' \<and> I tr'"
    and len: "length (children m) = 8" and j: "j \<le> 8" and inv: "I tr"
  shows "\<exists>m' tr'. fold F [0..<j] (m, tr, concat (map W [0..<j]) @ rest) = (m', tr', rest) \<and>
           length (children m') = 8 \<and> all_children_same m' = all_children_same m \<and>
           node_logit m' = node_logit m \<and> I tr' \<and>
           (\<forall>i<j. P i (children m' ! i)) \<and> (\<forall>i. j \<le> i \<longrightarrow> i < 8 \<longrightarrow> children m' ! i = children m ! i)"
  using j
proof (induction j arbitrary: rest)
  case 0
  then show ?case using len inv by simp
next
  case (Suc j)
  then have j: "j < 8" "j \<le> 8" by simp_all
  from Suc.IH[OF j(2), of "W j @ rest"] obtain m1 tr1 where
    f: "fold F [0..<j] (m, tr, concat (map W [0..<j]) @ W j @ rest) = (m1, tr1, W j @ rest)"
    and l1: "length (children m1) = 8" and a1: "all_children_same m1 = all_children_same m"
    and n1: "node_logit m1 = node_logit m" and i1: "I tr1"
    and p1: "\<forall>i<j. P i (children m1 ! i)"
    and u1: "\<forall>i. j \<le> i \<longrightarrow> i < 8 \<longrightarrow> children m1 ! i = children m ! i"
    by blast
  from u1 j have "children m1 ! j = children m ! j" by simp
  from step[OF j(1) l1 this i1, of rest] obtain c' tr' where
    s: "F j (m1, tr1, W j @ rest) = (set_children m1 ((children m1)[j := c']), tr', rest)"
    and pc: "P j c'" and i': "I tr'" by blast
  let ?m' = "set_children m1 ((children m1)[j := c'])"
  have "fold F [0..<Suc j] (m, tr, concat (map W [0..<Suc j]) @ rest) = (?m', tr', rest)"
    using f s by simp
  moreover have "\<forall>i<Suc j. P i (children ?m' ! i)"
    using p1 pc l1 j(1) by (auto simp: less_Suc_eq nth_list_update)
  moreover have "\<forall>i. Suc j \<le> i \<longrightarrow> i < 8 \<longrightarrow> children ?m' ! i = children m ! i"
    using u1 by (auto simp: nth_list_update)
  ultimately show ?case using l1 a1 n1 i' by auto
qed

lemma fold_leaves:
  fixes F :: "nat \<Rightarrow> inner_node \<times> chunk list \<Rightarrow> inner_node \<times> chunk list"
  assumes step: "\<And>i inner rest'. i < 8 \<Longrightarrow> length (children inner) = 8 \<Longrightarrow>
            \<exists>c'. F i (inner, W i @ rest') =
                        (set_children inner ((children inner)[i := c']), rest') \<and> P i c'"
    and len: "length (children m) = 8" and j: "j \<le> 8"
  shows "\<exists>m'. fold F [0..<j] (m, concat (map W [0..<j]) @ rest) = (m', rest) \<and>
           length (children m') = 8 \<and> all_children_same m' = all_children_same m \<and>
           (\<forall>i<j. P i (children m' ! i))"
  using j
proof (induction j arbitrary: rest)
  case 0
  then show ?case using len by simp
next
  case (Suc j)
  then have j: "j < 8" "j \<le> 8" by simp_all
  from Suc.IH[OF j(2), of "W j @ rest"] obtain m1 where
    f: "fold F [0..<j] (m, concat (map W [0..<j]) @ W j @ rest) = (m1, W j @ rest)"
    and l1: "length (children m1) = 8" and a1: "all_children_same m1 = all_children_same m"
    and p1: "\<forall>i<j. P i (children m1 ! i)"
    by blast
  from step[OF j(1) l1, of rest] obtain c' where
    s: "F j (m1, W j @ rest) = (set_children m1 ((children m1)[j := c']), rest)"
    and pc: "P j c'" by blast
  let ?m' = "set_children m1 ((children m1)[j := c'])"
  have "fold F [0..<Suc j] (m, concat (map W [0..<Suc j]) @ rest) = (?m', rest)"
    using f s by simp
  moreover have "\<forall>i<Suc j. P i (children ?m' ! i)"
    using p1 pc l1 j(1) by (auto simp: less_Suc_eq nth_list_update)
  ultimately show ?case using l1 a1 by auto
qed

lemma bit_bitset8:
  assumes "length bs = 8" "i < 8"
  shows "bit (bitset8 bs) i = bs ! i"
  using assms by (simp add: bitset8_def bit_horner_sum_bit_word_iff)

lemma get_char_Byte: "get_char (Byte b # s) = (b, s)"
  by (simp add: get_char_def)

lemma nodeReadData_Raw: "nodeReadData n (Raw l # s) = (set_logit n l, s)"
  by (simp add: nodeReadData_def)

subsection \<open>Reading the nodes back\<close>

lemma upt8_nth: "i \<in> set [0..<8] \<Longrightarrow> map f [0..<8] ! i = f i"
  by simp

text \<open>Writing and reading the children of a node when no bounding volume is given.\<close>

lemma writeNodesRecurs_all:
  "writeNodesRecurs t [] n cen (Suc (Suc d)) 0 =
     Byte (bitset8 (map (\<lambda>i. hasChildren (children n ! i)) [0..<8])) #
     concat (map (\<lambda>i.
       if hasChildren (children n ! i) then
         (if d = 0 then concat (map (\<lambda>j. nodeWriteData (children (children n ! i) ! j)) [0..<8])
          else writeNodesRecurs t [] (children n ! i)
                 (getChildCenter cen (getNodeHalfSize t (Suc d)) i) (Suc d) 0)
       else nodeWriteData (children n ! i)) [0..<8])"
  by (subst writeNodesRecurs.simps)
     (simp add: bv_empty_def Let_def upt8_nth del: set_upt cong: map_cong if_cong)

lemma readNodesRecurs_all:
  "readNodesRecurs tr [] m cen (Suc (Suc d)) o1 f1 (Byte b # s) =
     fold (\<lambda>i (inner, tr', st).
            if bit b i then
              (let (child1, tr1, st1) =
                     (if d = 0 then
                        (let (e, c1, tr0) = expand tr' (children inner ! i) (Suc d);
                             (c2, st0) =
                               fold (\<lambda>j (c, str).
                                       let (leaf, str1) = nodeReadData (children c ! j) str
                                       in (set_children c ((children c)[j := leaf]), str1))
                                 [0..<8] (c1, st)
                         in (c2, tr0, st0))
                      else readNodesRecurs tr' [] (children inner ! i)
                             (getChildCenter cen (getNodeHalfSize tr (Suc d)) i) (Suc d) o1 f1 st);
                   (changed, child2, tr2) = updateNode tr1 child1 (Suc d)
               in (set_children inner ((children inner)[i := child2]), tr2, st1))
            else
              (let (child1, st1) = nodeReadData (children inner ! i) st;
                   (child2, tr2) = prune tr' child1 (Suc d) False
               in (set_children inner ((children inner)[i := child2]), tr2, st1)))
       [0..<8]
       (fst (snd (expand tr m (Suc (Suc d)))), snd (snd (expand tr m (Suc (Suc d)))), s)"
  by (subst readNodesRecurs.simps)
     (simp add: get_char_Byte bv_empty_def Let_def split_beta upt8_nth del: set_upt
           cong: fold_cong if_cong)


lemma expand_compact:
  assumes "compact_node (Suc d) m"
  shows "\<not> all_children_same (fst (snd (expand tr m (Suc d))))"
    and "length (children (fst (snd (expand tr m (Suc d))))) = 8"
    and "\<forall>child \<in> set (children (fst (snd (expand tr m (Suc d))))). compact_node d child"
proof -
  show "\<not> all_children_same (fst (snd (expand tr m (Suc d))))"
    using assms by (auto simp: node_expand)
  show "length (children (fst (snd (expand tr m (Suc d))))) = 8"
    using assms by (auto simp: children_expand)
  show "\<forall>child \<in> set (children (fst (snd (expand tr m (Suc d))))). compact_node d child"
  proof (cases "all_children_same m")
    case False
    with assms show ?thesis by (simp add: children_expand)
  next
    case True
    with assms have "children m = []" by simp
    with True show ?thesis
      by (cases d) (auto simp: children_expand)
  qed
qed

text \<open>
  One level of reading back what was written: given that the levels below read back, the
  children of the node that has been read answer lookups as those of the written node.
\<close>

lemma readNodesRecurs_step:
  assumes rec: "\<And>n m tr cen cen' rest. 0 < d \<Longrightarrow> ok_node t (Suc d) n \<Longrightarrow>
        \<not> all_children_same n \<Longrightarrow> summarised (Suc d) n \<Longrightarrow> compact_node (Suc d) m \<Longrightarrow>
        \<exists>m' tr'. readNodesRecurs tr [] m cen (Suc d) o1 f1
                    (writeNodesRecurs t [] n cen' (Suc d) 0 @ rest) = (m', tr', rest) \<and>
                 \<not> all_children_same m' \<and> length (children m') = 8 \<and>
                 settings tr' = settings tr \<and>
                 (\<forall>i<8. stored_logit (children m' ! i) d = stored_logit (children n ! i) d)"
    and ok: "ok_node t (Suc (Suc d)) n" and nl: "\<not> all_children_same n"
    and sm: "summarised (Suc (Suc d)) n" and low: "float_lowest \<le> clamping_thres_min_log t"
    and cm: "compact_node (Suc (Suc d)) m"
  shows "\<exists>m' tr'. readNodesRecurs tr [] m cen (Suc (Suc d)) o1 f1
                    (writeNodesRecurs t [] n cen' (Suc (Suc d)) 0 @ rest) = (m', tr', rest) \<and>
                 \<not> all_children_same m' \<and> length (children m') = 8 \<and>
                 settings tr' = settings tr \<and>
                 (\<forall>i<8. stored_logit (children m' ! i) (Suc d) = stored_logit (children n ! i) (Suc d))"
proof -
  define b where "b = bitset8 (map (\<lambda>i. hasChildren (children n ! i)) [0..<8])"
  define W where "W = (\<lambda>i.
       if hasChildren (children n ! i) then
         (if d = 0 then concat (map (\<lambda>j. nodeWriteData (children (children n ! i) ! j)) [0..<8])
          else writeNodesRecurs t [] (children n ! i)
                 (getChildCenter cen' (getNodeHalfSize t (Suc d)) i) (Suc d) 0)
       else nodeWriteData (children n ! i))"
  define G where "G = (\<lambda>j (c, str).
                                       let (leaf, str1) = nodeReadData (children c ! j) str
                                       in (set_children c ((children c)[j := leaf]), str1))"
  define F where "F = (\<lambda>i (inner, tr', st).
            if bit b i then
              (let (child1, tr1, st1) =
                     (if d = 0 then
                        (let (e, c1, tr0) = expand tr' (children inner ! i) (Suc d);
                             (c2, st0) = fold G [0..<8] (c1, st)
                         in (c2, tr0, st0))
                      else readNodesRecurs tr' [] (children inner ! i)
                             (getChildCenter cen (getNodeHalfSize tr (Suc d)) i) (Suc d) o1 f1 st);
                   (changed, child2, tr2) = updateNode tr1 child1 (Suc d)
               in (set_children inner ((children inner)[i := child2]), tr2, st1))
            else
              (let (child1, st1) = nodeReadData (children inner ! i) st;
                   (child2, tr2) = prune tr' child1 (Suc d) False
               in (set_children inner ((children inner)[i := child2]), tr2, st1)))"
  define m1 where "m1 = fst (snd (expand tr m (Suc (Suc d))))"
  define t1 where "t1 = snd (snd (expand tr m (Suc (Suc d))))"
  have w: "writeNodesRecurs t [] n cen' (Suc (Suc d)) 0 @ rest = Byte b # concat (map W [0..<8]) @ rest"
    by (simp add: writeNodesRecurs_all b_def W_def)
  have r: "readNodesRecurs tr [] m cen (Suc (Suc d)) o1 f1 (Byte b # s) = fold F [0..<8] (m1, t1, s)" for s
    unfolding F_def G_def m1_def t1_def by (rule readNodesRecurs_all)
  have m1: "\<not> all_children_same m1" "length (children m1) = 8"
    "\<forall>child \<in> set (children m1). compact_node (Suc d) child"
    using expand_compact[OF cm] by (simp_all add: m1_def)
  have nlen: "length (children n) = 8"
    using ok_node_shape[OF ok] nl by auto
  have bit: "bit b i = hasChildren (children n ! i)" if "i < 8" for i
    using that by (simp add: b_def bit_bitset8)
  have step: "\<exists>c' tr''. F i (inner, tr', W i @ rest') =
                 (set_children inner ((children inner)[i := c']), tr'', rest') \<and>
               stored_logit c' (Suc d) = stored_logit (children n ! i) (Suc d) \<and>
               settings tr'' = settings tr"
    if i: "i < 8" and il: "length (children inner) = 8" and ci: "children inner ! i = children m1 ! i"
      and st: "settings tr' = settings tr"
    for i inner tr' rest'
  proof -
    let ?cn = "children n ! i" and ?cm = "children inner ! i"
    have cn_in: "?cn \<in> set (children n)" using i nlen by simp
    have okc: "ok_node t (Suc d) ?cn" using ok cn_in by (rule ok_node_child)
    have smc: "summarised (Suc d) ?cn" using sm nl cn_in by simp
    have "children m1 ! i \<in> set (children m1)" using i m1(2) by simp
    with m1(3) ci have cmc: "compact_node (Suc d) ?cm" by simp
    show ?thesis
    proof (cases "hasChildren ?cn")
      case False
      then have acs: "all_children_same ?cn" by (simp add: hasChildren_def)
      have Wi: "W i = [Raw (node_logit ?cn)]" using False by (simp add: W_def nodeWriteData_def)
      let ?c' = "fst (prune tr' (set_logit ?cm (node_logit ?cn)) (Suc d) False)"
      have "F i (inner, tr', W i @ rest') =
              (set_children inner ((children inner)[i := ?c']),
               snd (prune tr' (set_logit ?cm (node_logit ?cn)) (Suc d) False), rest')"
        using False bit[OF i] by (simp add: F_def Wi nodeReadData_Raw split_beta)
      moreover have "stored_logit ?c' (Suc d) = stored_logit ?cn (Suc d)"
        by (simp add: stored_logit_leaf prune_sel acs)
      moreover have "settings (snd (prune tr' (set_logit ?cm (node_logit ?cn)) (Suc d) False)) = settings tr"
        by (simp add: settings_prune st)
      ultimately show ?thesis by blast
    next
      case True
      then have nacs: "\<not> all_children_same ?cn" by (simp add: hasChildren_def)
      have clen: "length (children ?cn) = 8"
        using ok_node_shape[OF okc] nacs by auto
      have sumc: "node_logit ?cn = (if d = 0 then getMaxChildLogitLeaf (children ?cn)
                                    else getMaxChildLogitInner (children ?cn))"
        using smc nacs by simp
      have lowc: "float_lowest \<le> node_logit (children ?cn ! j)" if "j < 8" for j
      proof -
        have "children ?cn ! j \<in> set (children ?cn)" using that clen by simp
        with ok_children_logits[OF okc] have "clamping_thres_min_log t \<le> node_logit (children ?cn ! j)"
          by blast
        with low show ?thesis by simp
      qed
      have upd: "stored_logit (fst (snd (updateNode tx c1 (Suc d)))) (Suc d) = stored_logit ?cn (Suc d)"
        if "\<not> all_children_same c1" "length (children c1) = 8"
          "\<And>j. j < 8 \<Longrightarrow> stored_logit (children c1 ! j) d = stored_logit (children ?cn ! j) d"
        for c1 tx
        by (rule updateNode_stored[OF that(1,2) nacs clen that(3) sumc lowc])
      show ?thesis
      proof (cases "d = 0")
        case d0: True
        define c1 where "c1 = fst (snd (expand tr' ?cm (Suc d)))"
        define t0 where "t0 = snd (snd (expand tr' ?cm (Suc d)))"
        have c1: "\<not> all_children_same c1" "length (children c1) = 8"
          using expand_compact[OF cmc] by (simp_all add: c1_def)
        define V where "V = (\<lambda>j. [Raw (node_logit (children ?cn ! j))])"
        have Wi: "W i = concat (map V [0..<8])"
          using True d0 by (simp add: W_def V_def nodeWriteData_def)
        have "\<exists>c2. fold G [0..<8] (c1, concat (map V [0..<8]) @ rest') = (c2, rest') \<and>
                length (children c2) = 8 \<and> all_children_same c2 = all_children_same c1 \<and>
                (\<forall>j<8. node_logit (children c2 ! j) = node_logit (children ?cn ! j))"
        proof (rule fold_leaves[where P = "\<lambda>j leaf. node_logit leaf = node_logit (children ?cn ! j)"])
          fix j inner' rest''
          show "\<exists>c'. G j (inner', V j @ rest'') =
                   (set_children inner' ((children inner')[j := c']), rest'') \<and>
                 node_logit c' = node_logit (children ?cn ! j)"
            by (rule exI[of _ "set_logit (children inner' ! j) (node_logit (children ?cn ! j))"])
               (simp add: G_def V_def nodeReadData_Raw)
        qed (use c1 in simp_all)
        then obtain c2 where f2: "fold G [0..<8] (c1, W i @ rest') = (c2, rest')"
          and c2: "length (children c2) = 8" "\<not> all_children_same c2"
          and l2: "\<And>j. j < 8 \<Longrightarrow> node_logit (children c2 ! j) = node_logit (children ?cn ! j)"
          using c1(1) Wi by auto
        let ?c' = "fst (snd (updateNode t0 c2 (Suc d)))"
        have "F i (inner, tr', W i @ rest') =
                (set_children inner ((children inner)[i := ?c']), snd (snd (updateNode t0 c2 (Suc d))), rest')"
          using True bit[OF i] d0 f2[unfolded c1_def]
          by (simp add: F_def split_beta t0_def)
        moreover have "stored_logit ?c' (Suc d) = stored_logit ?cn (Suc d)"
          by (rule upd[OF c2(2,1)]) (simp add: d0 stored_logit_0 l2)
        moreover have "settings (snd (snd (updateNode t0 c2 (Suc d)))) = settings tr"
          by (simp add: settings_updateNode t0_def settings_expand st)
        ultimately show ?thesis by blast
      next
        case False
        then have dpos: "0 < d" by simp
        from rec[OF dpos okc nacs smc cmc, of tr' "getChildCenter cen (getNodeHalfSize tr (Suc d)) i"
                "getChildCenter cen' (getNodeHalfSize t (Suc d)) i" rest']
        obtain c1 tr1 where
          rd: "readNodesRecurs tr' [] ?cm (getChildCenter cen (getNodeHalfSize tr (Suc d)) i) (Suc d) o1 f1
                 (W i @ rest') = (c1, tr1, rest')"
          and c1: "\<not> all_children_same c1" "length (children c1) = 8"
          and s1: "settings tr1 = settings tr'"
          and k1: "\<And>j. j < 8 \<Longrightarrow> stored_logit (children c1 ! j) d = stored_logit (children ?cn ! j) d"
          using True False by (auto simp: W_def)
        let ?c' = "fst (snd (updateNode tr1 c1 (Suc d)))"
        have "F i (inner, tr', W i @ rest') =
                (set_children inner ((children inner)[i := ?c']), snd (snd (updateNode tr1 c1 (Suc d))), rest')"
          using True bit[OF i] False rd
          by (simp add: F_def split_beta)
        moreover have "stored_logit ?c' (Suc d) = stored_logit ?cn (Suc d)"
          by (rule upd[OF c1 k1])
        moreover have "settings (snd (snd (updateNode tr1 c1 (Suc d)))) = settings tr"
          by (simp add: settings_updateNode s1 st)
        ultimately show ?thesis by blast
      qed
    qed
  qed
  have t1: "settings t1 = settings tr"
    by (simp add: t1_def settings_expand)
  have "\<exists>m' tr'. fold F [0..<8] (m1, t1, concat (map W [0..<8]) @ rest) = (m', tr', rest) \<and>
           length (children m') = 8 \<and> all_children_same m' = all_children_same m1 \<and>
           node_logit m' = node_logit m1 \<and> settings tr' = settings tr \<and>
           (\<forall>i<8. stored_logit (children m' ! i) (Suc d) = stored_logit (children n ! i) (Suc d)) \<and>
           (\<forall>i. 8 \<le> i \<longrightarrow> i < 8 \<longrightarrow> children m' ! i = children m1 ! i)"
  proof (rule fold_children[where P = "\<lambda>i c'. stored_logit c' (Suc d) = stored_logit (children n ! i) (Suc d)"
        and I = "\<lambda>x. settings x = settings tr"])
    fix i inner tr' rest'
    assume "i < 8" "length (children inner) = 8" "children inner ! i = children m1 ! i"
      "settings tr' = settings tr"
    then show "\<exists>c' tr''. F i (inner, tr', W i @ rest') =
                 (set_children inner ((children inner)[i := c']), tr'', rest') \<and>
               stored_logit c' (Suc d) = stored_logit (children n ! i) (Suc d) \<and>
               settings tr'' = settings tr"
      by (rule step)
  qed (simp_all add: m1(2) t1)
  then obtain m' tr' where "fold F [0..<8] (m1, t1, concat (map W [0..<8]) @ rest) = (m', tr', rest)"
    and "length (children m') = 8" and "all_children_same m' = all_children_same m1"
    and "settings tr' = settings tr"
    and "\<forall>i<8. stored_logit (children m' ! i) (Suc d) = stored_logit (children n ! i) (Suc d)"
    by blast
  with m1(1) show ?thesis
    unfolding w r by blast
qed


text \<open>Reading back the children of a written node, at every depth.\<close>

lemma readNodesRecurs_writeNodesRecurs:
  assumes "ok_node t (Suc (Suc d)) n" and "\<not> all_children_same n"
    and "summarised (Suc (Suc d)) n" and "float_lowest \<le> clamping_thres_min_log t"
    and "compact_node (Suc (Suc d)) m"
  shows "\<exists>m' tr'. readNodesRecurs tr [] m cen (Suc (Suc d)) o1 f1
                    (writeNodesRecurs t [] n cen' (Suc (Suc d)) 0 @ rest) = (m', tr', rest) \<and>
                 \<not> all_children_same m' \<and> length (children m') = 8 \<and>
                 settings tr' = settings tr \<and>
                 (\<forall>i<8. stored_logit (children m' ! i) (Suc d) = stored_logit (children n ! i) (Suc d))"
  using assms
proof (induction d arbitrary: n m tr cen cen' rest)
  case 0
  show ?case
    by (rule readNodesRecurs_step) (use 0 in simp_all)
next
  case (Suc d)
  show ?case
  proof (rule readNodesRecurs_step)
    fix n m tr cen cen' rest
    assume "ok_node t (Suc (Suc d)) n" "\<not> all_children_same n" "summarised (Suc (Suc d)) n"
      "compact_node (Suc (Suc d)) m"
    then show "\<exists>m' tr'. readNodesRecurs tr [] m cen (Suc (Suc d)) o1 f1
                    (writeNodesRecurs t [] n cen' (Suc (Suc d)) 0 @ rest) = (m', tr', rest) \<and>
                 \<not> all_children_same m' \<and> length (children m') = 8 \<and>
                 settings tr' = settings tr \<and>
                 (\<forall>i<8. stored_logit (children m' ! i) (Suc d) = stored_logit (children n ! i) (Suc d))"
      using Suc.prems(4) by (intro Suc.IH)
  qed (use Suc.prems in simp_all)
qed

lemma bitset8_replicate: "bitset8 (replicate 8 False) = 0" "bitset8 (replicate 8 True) \<noteq> 0"
proof -
  show "bitset8 (replicate 8 False) = 0"
    by (simp add: bitset8_def eval_nat_numeral)
  have "bit (bitset8 (replicate 8 True)) 0"
    by (simp add: bit_bitset8)
  then show "bitset8 (replicate 8 True) \<noteq> 0"
    by auto
qed

lemma writeNodes_all:
  "writeNodes t [] n d 0 =
     (True, if hasChildren n \<and> 0 < d
            then Byte (bitset8 (replicate 8 True)) # writeNodesRecurs t [] n (0, 0, 0) d 0
            else Byte 0 # nodeWriteData n)"
  by (simp add: writeNodes_def bv_empty_def bitset8_replicate)

text \<open>Reading back a written root: the node that has been read answers lookups as the written one.\<close>

lemma readNodes_writeNodes:
  assumes ok: "ok_node t (Suc (Suc d)) n" and sm: "summarised (Suc (Suc d)) n"
    and low: "float_lowest \<le> clamping_thres_min_log t" and cm: "compact_node (Suc (Suc d)) m"
  shows "\<exists>m' tr'. readNodes tr [] m (Suc (Suc d)) o1 f1 (snd (writeNodes t [] n (Suc (Suc d)) 0) @ rest) =
                    (True, m', tr', rest) \<and>
                 settings tr' = settings tr \<and>
                 stored_logit m' (Suc (Suc d)) = stored_logit n (Suc (Suc d))"
proof (cases "all_children_same n")
  case True
  let ?m' = "fst (prune tr (set_logit m (node_logit n)) (Suc (Suc d)) False)"
  have "readNodes tr [] m (Suc (Suc d)) o1 f1 (snd (writeNodes t [] n (Suc (Suc d)) 0) @ rest) =
          (True, ?m', snd (prune tr (set_logit m (node_logit n)) (Suc (Suc d)) False), rest)"
    using True
    by (simp add: writeNodes_all hasChildren_def nodeWriteData_def readNodes_def bv_empty_def
          get_char_Byte nodeReadData_Raw split_beta)
  moreover have "stored_logit ?m' (Suc (Suc d)) = stored_logit n (Suc (Suc d))"
    using True by (simp add: stored_logit_leaf prune_sel)
  ultimately show ?thesis
    by (simp add: settings_prune)
next
  case False
  from readNodesRecurs_writeNodesRecurs[OF ok False sm low cm, of tr "(0, 0, 0)" o1 f1 "(0, 0, 0)" rest]
  obtain m1 tr1 where
    rd: "readNodesRecurs tr [] m (0, 0, 0) (Suc (Suc d)) o1 f1
           (writeNodesRecurs t [] n (0, 0, 0) (Suc (Suc d)) 0 @ rest) = (m1, tr1, rest)"
    and m1: "\<not> all_children_same m1" "length (children m1) = 8"
    and s1: "settings tr1 = settings tr"
    and k1: "\<And>i. i < 8 \<Longrightarrow> stored_logit (children m1 ! i) (Suc d) = stored_logit (children n ! i) (Suc d)"
    by blast
  have nlen: "length (children n) = 8"
    using ok_node_shape[OF ok] False by auto
  have sumn: "node_logit n = (if Suc d = 0 then getMaxChildLogitLeaf (children n)
                              else getMaxChildLogitInner (children n))"
    using sm False by simp
  have lown: "float_lowest \<le> node_logit (children n ! j)" if "j < 8" for j
  proof -
    have "children n ! j \<in> set (children n)" using that nlen by simp
    with ok_children_logits[OF ok] have "clamping_thres_min_log t \<le> node_logit (children n ! j)"
      by blast
    with low show ?thesis by simp
  qed
  let ?m' = "fst (snd (updateNode tr1 m1 (Suc (Suc d))))"
  have "readNodes tr [] m (Suc (Suc d)) o1 f1 (snd (writeNodes t [] n (Suc (Suc d)) 0) @ rest) =
          (True, ?m', snd (snd (updateNode tr1 m1 (Suc (Suc d)))), rest)"
    using False rd
    by (simp add: writeNodes_all hasChildren_def readNodes_def bv_empty_def
          get_char_Byte bitset8_replicate split_beta)
  moreover have "stored_logit ?m' (Suc (Suc d)) = stored_logit n (Suc (Suc d))"
    by (rule updateNode_stored[OF m1 False nlen k1 sumn lown])
  ultimately show ?thesis
    by (simp add: settings_updateNode s1)
qed

subsection \<open>Summaries and kept blocks under updates\<close>

lemma summarised_leaf: "all_children_same n \<Longrightarrow> summarised d n"
  by (cases d) simp_all

lemma summarised_expand:
  assumes ok: "ok_node t (Suc d) n" and sm: "summarised (Suc d) n"
    and low: "float_lowest \<le> clamping_thres_min_log t"
  shows "summarised (Suc d) (fst (snd (expand t n (Suc d))))"
proof (cases "all_children_same n")
  case False
  with sm show ?thesis by (simp add: expand_def)
next
  case True
  show ?thesis
  proof (cases "children n = []")
    case False
    with True have "all_children_same (fst (snd (expand t n (Suc d))))"
      by (simp add: node_expand)
    then show ?thesis by (rule summarised_leaf)
  next
    case fresh: True
    let ?n' = "fst (snd (expand t n (Suc d)))"
    have l: "float_lowest \<le> node_logit n"
      using ok_node_logit[OF ok] low by simp
    have all: "\<forall>x \<in> set (map node_logit (children ?n')). x = node_logit n"
      using True fresh by (auto simp: children_expand)
    have ne: "map node_logit (children ?n') \<noteq> []"
      using True fresh by (auto simp: children_expand)
    have c0: "node_logit (children ?n' ! 0) = node_logit n"
      using True fresh by (auto simp: children_expand eval_nat_numeral)
    have kids: "\<forall>child \<in> set (children ?n'). summarised d child"
      using True fresh by (cases d) (auto simp: children_expand)
    have "getMaxChildLogitLeaf (children ?n') = node_logit n"
      unfolding getMaxChildLogitLeaf_def fold_max_map c0
      by (rule fold_max_const[OF all _ ne]) simp
    moreover have "getMaxChildLogitInner (children ?n') = node_logit n"
      unfolding getMaxChildLogitInner_def fold_max_map
      by (rule fold_max_const[OF all l ne])
    ultimately show ?thesis
      using kids by (auto simp: node_expand)
  qed
qed

lemma summarised_updateNode:
  assumes "\<forall>child \<in> set (children n). summarised d child"
  shows "summarised (Suc d) (fst (snd (updateNode t n (Suc d))))"
proof (cases "d = 0")
  case True
  show ?thesis
  proof (cases "isNodeCollapsibleLeaf (children n)")
    case c: True
    have "all_children_same (fst (snd (updateNode t n (Suc d))))"
      using True updateNodeLeaf_collapsed(2)[OF c] by (simp add: updateNode_def)
    then show ?thesis by (rule summarised_leaf)
  next
    case False
    with True assms show ?thesis
      by (simp add: updateNode_def updateNodeLeaf_sel)
  qed
next
  case False
  show ?thesis
  proof (cases "isNodeCollapsibleInner (children n)")
    case c: True
    have "all_children_same (fst (snd (updateNode t n (Suc d))))"
      using False updateNodeInner_collapsed(2)[OF c] by (simp add: updateNode_def)
    then show ?thesis by (rule summarised_leaf)
  next
    case nc: False
    with False assms show ?thesis
      by (simp add: updateNode_def updateNodeInner_sel)
  qed
qed

lemma updateNode_unchanged:
  "\<not> fst (updateNode t n d) \<Longrightarrow> fst (snd (updateNode t n d)) = n"
  by (auto simp: updateNode_def updateNodeLeaf_def updateNodeInner_def Let_def split_beta split: if_splits)

lemma summarised_replace_child:
  assumes sm: "summarised (Suc d) n" and c: "summarised d child"
    and len: "i < length (children n)" and l: "node_logit child = node_logit (children n ! i)"
  shows "summarised (Suc d) (set_children n ((children n)[i := child]))"
proof (cases "all_children_same n")
  case True
  then show ?thesis by simp
next
  case False
  have m: "map node_logit ((children n)[i := child]) = map node_logit (children n)"
    using len l by (simp add: map_update list_update_same_conv)
  have ne: "(children n)[i := child] \<noteq> []" using len by auto
  have kids: "\<forall>x \<in> set ((children n)[i := child]). summarised d x"
    using sm False c set_update_subset_insert[of "children n" i child] by auto
  from sm False show ?thesis
    using getMaxChildLogitInner_map[OF m] getMaxChildLogitLeaf_map[OF m ne] kids
    by simp
qed


lemma summarised_expand_children:
  assumes sm: "summarised (Suc d) n"
  shows "\<forall>child \<in> set (children (fst (snd (expand t n (Suc d))))). summarised d child"
proof (cases "all_children_same n")
  case False
  with sm show ?thesis by (simp add: children_expand)
next
  case True
  then show ?thesis
    by (cases d) (auto simp: children_expand)
qed

lemma summarised_children:
  "summarised (Suc d) n \<Longrightarrow> \<not> all_children_same n \<Longrightarrow> child \<in> set (children n) \<Longrightarrow> summarised d child"
  by simp

text \<open>
  The recursive update keeps the summaries: every node with children holds the maximum of
  their logits afterwards, and a node reported as unchanged has kept its logit.
\<close>

lemma summarised_updateNodeValueRecurs:
  assumes "float_lowest \<le> clamping_thres_min_log t"
    and "clamping_thres_min_log t \<le> clamping_thres_max_log t"
    and "ok_node t d nd" and "summarised d nd"
  shows "summarised d (fst (snd (updateNodeValueRecurs t c v nd d sv))) \<and>
         (\<not> snd (fst (updateNodeValueRecurs t c v nd d sv)) \<longrightarrow>
            node_logit (fst (snd (updateNodeValueRecurs t c v nd d sv))) = node_logit nd)"
  using assms
proof (induction d arbitrary: t c nd)
  case 0
  let ?l = "if sv then std_clamp v (clamping_thres_min_log t) (clamping_thres_max_log t)
            else std_clamp (node_logit nd + v) (clamping_thres_min_log t) (clamping_thres_max_log t)"
  have res: "updateNodeValueRecurs t c v nd 0 sv =
               ((Node (Some (set_logit nd ?l)) c, True), set_logit nd ?l, note_change t c)"
    by (subst updateNodeValueRecurs.simps) (simp add: Let_def)
  show ?case by (simp add: res)
next
  case (Suc d)
  let ?lo = "clamping_thres_min_log t" and ?hi = "clamping_thres_max_log t"
  show ?case
  proof (cases "getDepth c < Suc d")
    case True
    obtain e inner1 t1 where ex: "expand t nd (Suc d) = (e, inner1, t1)"
      by (metis prod_cases3)
    have i1: "ok_node t (Suc d) inner1" "length (children inner1) = 8"
      using ok_expand[OF Suc.prems(3)] by (simp_all add: ex)
    have sm1: "summarised (Suc d) inner1"
      using summarised_expand[OF Suc.prems(3,4,1)] by (simp add: ex)
    have k1: "\<forall>child \<in> set (children inner1). summarised d child"
      using summarised_expand_children[OF Suc.prems(4), of t] by (simp add: ex)
    have l1: "node_logit inner1 = node_logit nd"
      using node_expand(1)[of t nd "Suc d"] by (simp add: ex)
    have s1: "settings t1 = settings t"
      using settings_expand[of t nd "Suc d"] by (simp add: ex)
    let ?idx = "getChildIdx c d"
    have idx: "?idx < 8" by (simp add: getChildIdx_def)
    with i1 have mem: "children inner1 ! ?idx \<in> set (children inner1)" by simp
    with i1(1) have okc: "ok_node t d (children inner1 ! ?idx)" by (rule ok_node_child)
    from k1 mem have smc: "summarised d (children inner1 ! ?idx)" by blast
    obtain child changed cn t2 where
      rc: "updateNodeValueRecurs t1 c v (children inner1 ! ?idx) d sv = ((child, changed), cn, t2)"
      by (metis prod_cases3 surj_pair)
    have "summarised d cn \<and> (\<not> changed \<longrightarrow> node_logit cn = node_logit (children inner1 ! ?idx))"
      using Suc.IH[of t1 "children inner1 ! ?idx" c] Suc.prems(1,2) okc smc
      by (simp add: rc settings_fields[OF s1] ok_node_settings[OF s1])
    then have cn: "summarised d cn"
      and cl: "\<not> changed \<Longrightarrow> node_logit cn = node_logit (children inner1 ! ?idx)"
      by simp_all
    define inner2 where "inner2 = set_children inner1 ((children inner1)[?idx := cn])"
    have l2: "node_logit inner2 = node_logit nd" by (simp add: inner2_def l1)
    have k2: "\<forall>x \<in> set (children inner2). summarised d x"
      using k1 cn set_update_subset_insert[of "children inner1" ?idx cn] by (auto simp: inner2_def)
    obtain ch2 inner3 t3 where un: "updateNode t2 inner2 (Suc d) = (ch2, inner3, t3)"
      by (metis prod_cases3)
    have i3: "summarised (Suc d) inner3"
      using summarised_updateNode[OF k2, of t2] by (simp add: un)
    have u3: "\<not> ch2 \<Longrightarrow> inner3 = inner2"
      using updateNode_unchanged[of t2 inner2 "Suc d"] by (simp add: un)
    have res: "updateNodeValueRecurs t c v nd (Suc d) sv =
                 (if changed then ((child, ch2), inner3,
                                   (if ch2 then note_change t3 (toDepth c (Suc d)) else t3))
                  else ((child, changed), inner2, t2))"
      using True
      by (subst updateNodeValueRecurs.simps) (simp add: ex rc un[unfolded inner2_def] inner2_def Let_def)
    show ?thesis
    proof (cases changed)
      case True
      with i3 u3 l2 show ?thesis by (auto simp: res)
    next
      case False
      have "summarised (Suc d) inner2"
        unfolding inner2_def
        by (rule summarised_replace_child[OF sm1 cn]) (use idx i1(2) cl[OF False] in simp_all)
      with False l2 show ?thesis by (simp add: res)
    qed
  next
    case deep: False
    show ?thesis
    proof (cases sv)
      case True
      define nd1 where "nd1 = set_logit nd (std_clamp v ?lo ?hi)"
      obtain p1 tp where pr: "prune t nd1 (Suc d) False = (p1, tp)"
        by (cases "prune t nd1 (Suc d) False")
      have p1: "all_children_same p1"
        using prune_sel(1)[of t nd1 "Suc d" False] by (simp add: pr)
      have res: "updateNodeValueRecurs t c v nd (Suc d) sv = ((Node (Some p1) c, True), p1, note_change tp c)"
        using deep True
        by (subst updateNodeValueRecurs.simps) (simp add: Let_def nd1_def[symmetric] pr)
      show ?thesis by (simp add: res summarised_leaf[OF p1])
    next
      case nsv: False
      define nd1 where "nd1 = set_logit nd (std_clamp (node_logit nd + v) ?lo ?hi)"
      have n1: "ok_node t (Suc d) nd1"
        unfolding nd1_def using Suc.prems std_clamp_range[OF Suc.prems(2)] by (intro ok_set_logit) auto
      define F where "F = (\<lambda>child_idx (inner, s).
                        (let (r, child_node, s1) =
                           updateNodeValueRecurs s (getChildCode c child_idx) v
                             (children inner ! child_idx) (Suc d - 1) sv
                         in (set_children inner ((children inner)[child_idx := child_node]), s1)))"
      note raw = updateNodeValueRecurs.simps[of t c v nd "Suc d" sv, folded F_def]
      define P where "P = (\<lambda>(inner, s). ok_node t (Suc d) inner \<and> length (children inner) = 8 \<and>
                             settings s = settings t \<and>
                             (\<forall>x \<in> set (children inner). summarised d x))"
      have step: "P (F i st)" if "i \<in> set [0..<8]" and "P st" for i st
      proof -
        obtain inner s where st: "st = (inner, s)" by (cases st)
        from that(2) have inv: "ok_node t (Suc d) inner" "length (children inner) = 8" "settings s = settings t"
          "\<forall>x \<in> set (children inner). summarised d x"
          by (simp_all add: P_def st)
        from that(1) inv have mem: "children inner ! i \<in> set (children inner)" by simp
        with inv(1) have okc: "ok_node t d (children inner ! i)" by (rule ok_node_child)
        from inv(4) mem have smc: "summarised d (children inner ! i)" by blast
        obtain r cn s1 where
          rc: "updateNodeValueRecurs s (getChildCode c i) v (children inner ! i) d sv = (r, cn, s1)"
          by (metis prod_cases3)
        have "ok_node s d cn \<and> settings s1 = settings s"
          using ok_updateNodeValueRecurs[of s d "children inner ! i" "getChildCode c i" v sv] Suc.prems(1,2) okc
          by (simp add: rc settings_fields[OF inv(3)] ok_node_settings[OF inv(3)])
        then have cn: "ok_node t d cn" and s1: "settings s1 = settings t"
          by (simp_all add: inv(3) ok_node_settings[OF inv(3)])
        have "summarised d cn"
          using Suc.IH[of s "children inner ! i" "getChildCode c i"] Suc.prems(1,2) okc smc
          by (simp add: rc settings_fields[OF inv(3)] ok_node_settings[OF inv(3)])
        then have k: "\<forall>x \<in> set ((children inner)[i := cn]). summarised d x"
          using inv(4) set_update_subset_insert[of "children inner" i cn] by auto
        have "F i st = (set_children inner ((children inner)[i := cn]), s1)"
          by (simp add: F_def st rc)
        with ok_replace_child[OF inv(1) cn inv(2)] inv(2) s1 k show ?thesis
          by (simp add: P_def)
      qed
      have foldP: "P (fold F [0..<8] (nd1, t))" if "hasChildren nd1"
      proof (rule fold_invariant[where P = P])
        from that n1 have "length (children nd1) = 8"
          using ok_node_shape[OF n1] by (auto simp: hasChildren_def)
        moreover from that have "\<not> all_children_same nd" by (simp add: nd1_def hasChildren_def)
        with Suc.prems(4) have "\<forall>x \<in> set (children nd1). summarised d x"
          by (simp add: nd1_def)
        ultimately show "P (nd1, t)" using n1 by (simp add: P_def)
      qed (rule step)
      obtain inner1 t1 where fd: "fold F [0..<8] (nd1, t) = (inner1, t1)"
        by (cases "fold F [0..<8] (nd1, t)")
      obtain ch2 inner2 t3 where un: "updateNode t1 inner1 (Suc d) = (ch2, inner2, t3)"
        by (metis prod_cases3)
      obtain p1 tp where pr: "prune t nd1 (Suc d) False = (p1, tp)"
        by (cases "prune t nd1 (Suc d) False")
      have p1: "all_children_same p1"
        using prune_sel(1)[of t nd1 "Suc d" False] by (simp add: pr)
      define nd2 where "nd2 = (if \<not> isOccupied t nd1 then p1 else if hasChildren nd1 then inner2 else nd1)"
      define t2 where "t2 = (if \<not> isOccupied t nd1 then tp else if hasChildren nd1 then t3 else t)"
      have res: "updateNodeValueRecurs t c v nd (Suc d) sv = ((Node (Some nd2) c, True), nd2, note_change t2 c)"
        unfolding raw using deep nsv
        by (simp add: Let_def nd1_def[symmetric] fd un pr nd2_def t2_def)
      have "summarised (Suc d) nd2"
      proof (cases "isOccupied t nd1 \<and> hasChildren nd1")
        case True
        with foldP have "\<forall>x \<in> set (children inner1). summarised d x"
          by (simp add: P_def fd)
        from summarised_updateNode[OF this, of t1] have "summarised (Suc d) inner2"
          by (simp add: un)
        with True show ?thesis by (simp add: nd2_def)
      next
        case False
        have a: "summarised (Suc d) p1" by (rule summarised_leaf[OF p1])
        have b: "summarised (Suc d) nd1" if "\<not> hasChildren nd1"
          by (rule summarised_leaf) (use that in \<open>simp add: hasChildren_def\<close>)
        from False a b show ?thesis
          by (auto simp: nd2_def simp del: summarised.simps)
      qed
      then show ?thesis by (simp add: res)
    qed
  qed
qed

lemma compact_node_cong:
  "all_children_same a = all_children_same b \<Longrightarrow> children a = children b \<Longrightarrow>
   compact_node d a = compact_node d b"
  by (cases d) simp_all

lemma compact_prune:
  assumes "automatic_pruning_enabled t"
  shows "compact_node d (fst (prune t n d False))"
proof (cases d)
  case 0
  then show ?thesis by simp
next
  case (Suc d')
  have "fst (deleteChildren t n d False) =
          (if children n = [] then set_all_children_same n True
           else set_children (set_all_children_same n True) [])"
    using assms Suc by (simp add: fst_deleteChildren del: deleteChildren.simps)
  then show ?thesis
    using Suc by (simp add: prune_def split_beta del: deleteChildren.simps)
qed

lemma updateNode_collapsed_eq:
  "isNodeCollapsibleLeaf cs \<Longrightarrow>
   fst (snd (updateNodeLeaf t n cs d)) = fst (prune t (set_logit n (node_logit (cs ! 0))) d False)"
  "isNodeCollapsibleInner cs \<Longrightarrow>
   fst (snd (updateNodeInner t n cs d)) = fst (prune t (set_logit n (node_logit (cs ! 0))) d False)"
  by (simp_all add: updateNodeLeaf_def updateNodeInner_def split_beta)

lemma compact_updateNode:
  assumes "automatic_pruning_enabled t" and "compact_node (Suc d) n"
  shows "compact_node (Suc d) (fst (snd (updateNode t n (Suc d))))"
proof -
  have p: "compact_node (Suc d) (fst (prune t x (Suc d) False))" for x
    using assms(1) by (rule compact_prune)
  show ?thesis
  proof (cases "d = 0")
    case True
    then have r: "updateNode t n (Suc d) = updateNodeLeaf t n (children n) (Suc d)"
      by (simp add: updateNode_def)
    show ?thesis
    proof (cases "isNodeCollapsibleLeaf (children n)")
      case c: True
      show ?thesis unfolding r updateNode_collapsed_eq(1)[OF c] by (rule p)
    next
      case False
      have "compact_node (Suc d) (fst (snd (updateNodeLeaf t n (children n) (Suc d)))) =
              compact_node (Suc d) n"
        by (rule compact_node_cong) (simp_all add: updateNodeLeaf_sel[OF False])
      with assms(2) show ?thesis unfolding r by blast
    qed
  next
    case False
    then have r: "updateNode t n (Suc d) = updateNodeInner t n (children n) (Suc d)"
      by (simp add: updateNode_def)
    show ?thesis
    proof (cases "isNodeCollapsibleInner (children n)")
      case c: True
      show ?thesis unfolding r updateNode_collapsed_eq(2)[OF c] by (rule p)
    next
      case nc: False
      have "compact_node (Suc d) (fst (snd (updateNodeInner t n (children n) (Suc d)))) =
              compact_node (Suc d) n"
        by (rule compact_node_cong) (simp_all add: updateNodeInner_sel[OF nc])
      with assms(2) show ?thesis unfolding r by blast
    qed
  qed
qed

lemma compact_replace_child:
  assumes "compact_node (Suc d) n" and "compact_node d child"
  shows "compact_node (Suc d) (set_children n ((children n)[i := child]))"
proof (cases "all_children_same n")
  case True
  with assms show ?thesis by simp
next
  case False
  have "x \<in> set ((children n)[i := child]) \<Longrightarrow> x = child \<or> x \<in> set (children n)" for x
    using set_update_subset_insert[of "children n" i child] by auto
  with False assms show ?thesis by auto
qed

lemma compact_set_logit: "compact_node d (set_logit n l) = compact_node d n"
  by (rule compact_node_cong) simp_all

text \<open>
  With automatic pruning enabled the recursive update leaves no child block under a collapsed
  node.
\<close>

lemma compact_updateNodeValueRecurs:
  assumes "float_lowest \<le> clamping_thres_min_log t"
    and "clamping_thres_min_log t \<le> clamping_thres_max_log t"
    and "ok_node t d nd" and "automatic_pruning_enabled t" and "compact_node d nd"
  shows "compact_node d (fst (snd (updateNodeValueRecurs t c v nd d sv)))"
  using assms
proof (induction d arbitrary: t c nd)
  case 0
  show ?case by simp
next
  case (Suc d)
  let ?lo = "clamping_thres_min_log t" and ?hi = "clamping_thres_max_log t"
  show ?case
  proof (cases "getDepth c < Suc d")
    case True
    obtain e inner1 t1 where ex: "expand t nd (Suc d) = (e, inner1, t1)"
      by (metis prod_cases3)
    have i1: "ok_node t (Suc d) inner1" "length (children inner1) = 8"
      using ok_expand[OF Suc.prems(3)] by (simp_all add: ex)
    have c1: "\<not> all_children_same inner1" "\<forall>child \<in> set (children inner1). compact_node d child"
      using expand_compact[OF Suc.prems(5), of t] by (simp_all add: ex)
    have s1: "settings t1 = settings t"
      using settings_expand[of t nd "Suc d"] by (simp add: ex)
    let ?idx = "getChildIdx c d"
    have idx: "?idx < 8" by (simp add: getChildIdx_def)
    with i1 have mem: "children inner1 ! ?idx \<in> set (children inner1)" by simp
    with i1(1) have okc: "ok_node t d (children inner1 ! ?idx)" by (rule ok_node_child)
    from c1(2) mem have cc: "compact_node d (children inner1 ! ?idx)" by blast
    obtain child changed cn t2 where
      rc: "updateNodeValueRecurs t1 c v (children inner1 ! ?idx) d sv = ((child, changed), cn, t2)"
      by (metis prod_cases3 surj_pair)
    have cn: "compact_node d cn"
      using Suc.IH[of t1 "children inner1 ! ?idx" c] Suc.prems(1,2,4) okc cc
      by (simp add: rc settings_fields[OF s1] ok_node_settings[OF s1])
    have s2: "settings t2 = settings t"
      using ok_updateNodeValueRecurs[of t1 d "children inner1 ! ?idx" c v sv] Suc.prems(1,2) okc
      by (simp add: rc settings_fields[OF s1] ok_node_settings[OF s1] s1)
    define inner2 where "inner2 = set_children inner1 ((children inner1)[?idx := cn])"
    have i1c: "compact_node (Suc d) inner1" using c1 i1(2) by simp
    have c2: "compact_node (Suc d) inner2"
      unfolding inner2_def by (rule compact_replace_child[OF i1c cn])
    obtain ch2 inner3 t3 where un: "updateNode t2 inner2 (Suc d) = (ch2, inner3, t3)"
      by (metis prod_cases3)
    have "automatic_pruning_enabled t2"
      using settings_fields(3)[OF s2] Suc.prems(4) by simp
    from compact_updateNode[OF this c2] have c3: "compact_node (Suc d) inner3"
      by (simp add: un)
    have res: "updateNodeValueRecurs t c v nd (Suc d) sv =
                 (if changed then ((child, ch2), inner3,
                                   (if ch2 then note_change t3 (toDepth c (Suc d)) else t3))
                  else ((child, changed), inner2, t2))"
      using True
      by (subst updateNodeValueRecurs.simps) (simp add: ex rc un[unfolded inner2_def] inner2_def Let_def)
    show ?thesis
      using c2 c3 by (simp add: res del: compact_node.simps)
  next
    case deep: False
    show ?thesis
    proof (cases sv)
      case True
      define nd1 where "nd1 = set_logit nd (std_clamp v ?lo ?hi)"
      obtain p1 tp where pr: "prune t nd1 (Suc d) False = (p1, tp)"
        by (cases "prune t nd1 (Suc d) False")
      have p1: "compact_node (Suc d) p1"
        using compact_prune[OF Suc.prems(4), of "Suc d" nd1] by (simp add: pr)
      have res: "updateNodeValueRecurs t c v nd (Suc d) sv = ((Node (Some p1) c, True), p1, note_change tp c)"
        using deep True
        by (subst updateNodeValueRecurs.simps) (simp add: Let_def nd1_def[symmetric] pr)
      show ?thesis using p1 by (simp add: res del: compact_node.simps)
    next
      case nsv: False
      define nd1 where "nd1 = set_logit nd (std_clamp (node_logit nd + v) ?lo ?hi)"
      have n1: "ok_node t (Suc d) nd1"
        unfolding nd1_def using Suc.prems std_clamp_range[OF Suc.prems(2)] by (intro ok_set_logit) auto
      have n1c: "compact_node (Suc d) nd1"
        unfolding nd1_def compact_set_logit by (rule Suc.prems(5))
      define F where "F = (\<lambda>child_idx (inner, s).
                        (let (r, child_node, s1) =
                           updateNodeValueRecurs s (getChildCode c child_idx) v
                             (children inner ! child_idx) (Suc d - 1) sv
                         in (set_children inner ((children inner)[child_idx := child_node]), s1)))"
      note raw = updateNodeValueRecurs.simps[of t c v nd "Suc d" sv, folded F_def]
      define P where "P = (\<lambda>(inner, s). ok_node t (Suc d) inner \<and> length (children inner) = 8 \<and>
                             settings s = settings t \<and> compact_node (Suc d) inner)"
      have step: "P (F i st)" if "i \<in> set [0..<8]" and "P st" for i st
      proof -
        obtain inner s where st: "st = (inner, s)" by (cases st)
        from that(2) have inv: "ok_node t (Suc d) inner" "length (children inner) = 8" "settings s = settings t"
          "compact_node (Suc d) inner"
          by (simp_all add: P_def st)
        from that(1) inv have mem: "children inner ! i \<in> set (children inner)" by simp
        with inv(1) have okc: "ok_node t d (children inner ! i)" by (rule ok_node_child)
        from inv(4) inv(2) mem have cc: "compact_node d (children inner ! i)"
          by (auto split: if_splits)
        obtain r cn s1 where
          rc: "updateNodeValueRecurs s (getChildCode c i) v (children inner ! i) d sv = (r, cn, s1)"
          by (metis prod_cases3)
        have "ok_node s d cn \<and> settings s1 = settings s"
          using ok_updateNodeValueRecurs[of s d "children inner ! i" "getChildCode c i" v sv] Suc.prems(1,2) okc
          by (simp add: rc settings_fields[OF inv(3)] ok_node_settings[OF inv(3)])
        then have cn: "ok_node t d cn" and s1: "settings s1 = settings t"
          by (simp_all add: inv(3) ok_node_settings[OF inv(3)])
        have cnc: "compact_node d cn"
          using Suc.IH[of s "children inner ! i" "getChildCode c i"] Suc.prems(1,2,4) okc cc
          by (simp add: rc settings_fields[OF inv(3)] ok_node_settings[OF inv(3)])
        have "F i st = (set_children inner ((children inner)[i := cn]), s1)"
          by (simp add: F_def st rc)
        with ok_replace_child[OF inv(1) cn inv(2)] inv(2) s1 compact_replace_child[OF inv(4) cnc, of i]
        show ?thesis
          by (simp add: P_def del: compact_node.simps)
      qed
      have foldP: "P (fold F [0..<8] (nd1, t))" if "hasChildren nd1"
      proof (rule fold_invariant[where P = P])
        from that n1 have "length (children nd1) = 8"
          using ok_node_shape[OF n1] by (auto simp: hasChildren_def)
        with n1 n1c show "P (nd1, t)" by (simp add: P_def del: compact_node.simps)
      qed (rule step)
      obtain inner1 t1 where fd: "fold F [0..<8] (nd1, t) = (inner1, t1)"
        by (cases "fold F [0..<8] (nd1, t)")
      obtain ch2 inner2 t3 where un: "updateNode t1 inner1 (Suc d) = (ch2, inner2, t3)"
        by (metis prod_cases3)
      obtain p1 tp where pr: "prune t nd1 (Suc d) False = (p1, tp)"
        by (cases "prune t nd1 (Suc d) False")
      have p1: "compact_node (Suc d) p1"
        using compact_prune[OF Suc.prems(4), of "Suc d" nd1] by (simp add: pr)
      define nd2 where "nd2 = (if \<not> isOccupied t nd1 then p1 else if hasChildren nd1 then inner2 else nd1)"
      define t2 where "t2 = (if \<not> isOccupied t nd1 then tp else if hasChildren nd1 then t3 else t)"
      have res: "updateNodeValueRecurs t c v nd (Suc d) sv = ((Node (Some nd2) c, True), nd2, note_change t2 c)"
        unfolding raw using deep nsv
        by (simp add: Let_def nd1_def[symmetric] fd un pr nd2_def t2_def)
      have "compact_node (Suc d) nd2"
      proof (cases "isOccupied t nd1 \<and> hasChildren nd1")
        case True
        with foldP have inv: "settings t1 = settings t" "compact_node (Suc d) inner1"
          by (simp_all add: P_def fd del: compact_node.simps)
        have "automatic_pruning_enabled t1"
          using settings_fields(3)[OF inv(1)] Suc.prems(4) by simp
        from compact_updateNode[OF this inv(2)] have "compact_node (Suc d) inner2"
          by (simp add: un)
        with True show ?thesis by (simp add: nd2_def del: compact_node.simps)
      next
        case False
        with p1 n1c show ?thesis
          by (auto simp: nd2_def simp del: compact_node.simps)
      qed
      then show ?thesis by (simp add: res del: compact_node.simps)
    qed
  qed
qed

text \<open>
  The conditions under which a tree is written and read back faithfully hold of an unexpanded
  tree and are kept by the update functions: the summaries in any tree, and the absence of
  kept blocks when automatic pruning is enabled.
\<close>

lemma default_node_summarised: "summarised d default_node" "compact_node d default_node"
  by (cases d; simp)+

lemma summarised_updates:
  assumes "wf_node (depth_levels t) (root_node t)" and "clamped_tree t"
    and "float_lowest \<le> clamping_thres_min_log t"
    and "summarised (depth_levels t) (root_node t)"
  shows "summarised (depth_levels (snd (updateNodeValue t c v))) (root_node (snd (updateNodeValue t c v)))"
    and "summarised (depth_levels (snd (setNodeValue t c v))) (root_node (snd (setNodeValue t c v)))"
proof -
  from assms(1,2) have ok: "ok_node t (depth_levels t) (root_node t)"
    by (simp add: clamped_tree_ok[symmetric])
  then have lohi: "clamping_thres_min_log t \<le> clamping_thres_max_log t"
    using ok_node_logit[OF ok] by simp
  have r: "summarised (depth_levels t)
             (fst (snd (updateNodeValueRecurs t c u (root_node t) (depth_levels t) sv)))" for u sv
    using summarised_updateNodeValueRecurs[OF assms(3) lohi ok assms(4)] by blast
  have s: "depth_levels (snd (snd (updateNodeValueRecurs t c u (root_node t) (depth_levels t) sv))) =
             depth_levels t" for u sv
    using ok_root_update[OF ok assms(3), of c u sv] settings_fields(7) by blast
  show "summarised (depth_levels (snd (updateNodeValue t c v))) (root_node (snd (updateNodeValue t c v)))"
    using assms(4) r[of v False] s[of v False]
    by (simp add: updateNodeValue_def Let_def split_beta del: summarised.simps)
  show "summarised (depth_levels (snd (setNodeValue t c v))) (root_node (snd (setNodeValue t c v)))"
    using assms(4) r[of _ True] s[of _ True]
    by (simp add: setNodeValue_def Let_def split_beta del: summarised.simps)
qed

lemma compact_updates:
  assumes "wf_node (depth_levels t) (root_node t)" and "clamped_tree t"
    and "float_lowest \<le> clamping_thres_min_log t"
    and "automatic_pruning_enabled t" and "compact_node (depth_levels t) (root_node t)"
  shows "compact_node (depth_levels (snd (updateNodeValue t c v))) (root_node (snd (updateNodeValue t c v))) \<and>
         automatic_pruning_enabled (snd (updateNodeValue t c v))"
    and "compact_node (depth_levels (snd (setNodeValue t c v))) (root_node (snd (setNodeValue t c v))) \<and>
         automatic_pruning_enabled (snd (setNodeValue t c v))"
proof -
  from assms(1,2) have ok: "ok_node t (depth_levels t) (root_node t)"
    by (simp add: clamped_tree_ok[symmetric])
  then have lohi: "clamping_thres_min_log t \<le> clamping_thres_max_log t"
    using ok_node_logit[OF ok] by simp
  have r: "compact_node (depth_levels t)
             (fst (snd (updateNodeValueRecurs t c u (root_node t) (depth_levels t) sv)))" for u sv
    by (rule compact_updateNodeValueRecurs[OF assms(3) lohi ok assms(4,5)])
  have st: "settings (snd (snd (updateNodeValueRecurs t c u (root_node t) (depth_levels t) sv))) =
             settings t" for u sv
    using ok_root_update[OF ok assms(3), of c u sv] by blast
  have s: "depth_levels (snd (snd (updateNodeValueRecurs t c u (root_node t) (depth_levels t) sv))) =
             depth_levels t"
    "automatic_pruning_enabled (snd (snd (updateNodeValueRecurs t c u (root_node t) (depth_levels t) sv)))"
    for u sv
    using settings_fields(3,7)[OF st[of u sv]] assms(4) by simp_all
  show "compact_node (depth_levels (snd (updateNodeValue t c v))) (root_node (snd (updateNodeValue t c v))) \<and>
         automatic_pruning_enabled (snd (updateNodeValue t c v))"
    using assms(4,5) r[of v False] s[of v False]
    by (simp add: updateNodeValue_def Let_def split_beta del: compact_node.simps)
  show "compact_node (depth_levels (snd (setNodeValue t c v))) (root_node (snd (setNodeValue t c v))) \<and>
         automatic_pruning_enabled (snd (setNodeValue t c v))"
    using assms(4,5) r[of _ True] s[of _ True]
    by (simp add: setNodeValue_def Let_def split_beta del: compact_node.simps)
qed

subsection \<open>Writing a tree and reading it back\<close>

lemma stream_bytes_nonneg: "0 \<le> stream_bytes s"
proof -
  have "0 \<le> chunk_bytes c" for c by (cases c) simp_all
  then show ?thesis
    unfolding stream_bytes_def by (induction s) (simp_all add: add_nonneg_nonneg)
qed

lemma write_octree_plain:
  assumes "stream_bytes (snd (writeNodes t [] (root_node t) (depth_levels t) 0)) < 2 ^ 31"
  shows "write_octree cdc t [] False False 0 =
     (True, write_header t False False
              (stream_bytes (snd (writeNodes t [] (root_node t) (depth_levels t) 0))) @
            snd (writeNodes t [] (root_node t) (depth_levels t) 0))"
proof -
  have "fst (writeNodes t [] (root_node t) (depth_levels t) 0)"
    by (simp add: writeNodes_all)
  moreover have "\<not> 0 > stream_bytes (snd (writeNodes t [] (root_node t) (depth_levels t) 0))"
    using stream_bytes_nonneg[of "snd (writeNodes t [] (root_node t) (depth_levels t) 0)"] by simp
  moreover from this assms
  have "to_int32 (stream_bytes (snd (writeNodes t [] (root_node t) (depth_levels t) 0))) =
          stream_bytes (snd (writeNodes t [] (root_node t) (depth_levels t) 0))"
    by (simp add: to_int32_id)
  ultimately show ?thesis
    by (simp add: write_octree_def writeData_def writeDataPlain_def split_beta)
qed

lemma getNode_stored:
  "node_logit (deref (getNode t c False)) = stored_logit (root_node t) (depth_levels t) c"
  by (simp add: getNode_def stored_logit_def)

text \<open>
  Writing a tree and reading it back into a receiver that holds no child block under a
  collapsed node.  Let a tree be well-formed and clamped, with every node that has children
  holding the maximum of their logits, between 2 and 21 depth levels, a positive resolution,
  a tree type that is one word and fewer than \<open>2 ^ 31\<close> bytes of nodes.  Written without
  compression, in text mode, with no bounding volume and from depth 0, and read into a tree
  of the same tree type whose resolution differs from the one printed (it is cleared first),
  or that has the same depth and keeps no child block under a collapsed node, it is read
  successfully, and the tree read stores at every code the logit the written tree stores
  there.
\<close>

lemma write_read_roundtrip:
  assumes wf: "wf_node (depth_levels t) (root_node t)" and cl: "clamped_tree t"
    and low: "float_lowest \<le> clamping_thres_min_log t"
    and sm: "summarised (depth_levels t) (root_node t)"
    and dl: "2 \<le> depth_levels t" "depth_levels t \<le> 21" and res: "0 < resolution t"
    and tt: "tree_type t \<noteq> []" "list_all (\<lambda>c. \<not> is_space c) (tree_type t)"
    and sz: "stream_bytes (snd (writeNodes t [] (root_node t) (depth_levels t) 0)) < 2 ^ 31"
    and same: "tree_type r = tree_type t"
    and recv: "resolution r \<noteq> print_float (resolution t) \<or>
               (depth_levels r = depth_levels t \<and> depth_levels r < length (nodes_half_sizes r) \<and>
                compact_node (depth_levels r) (root_node r))"
  shows "\<exists>s r'. write_octree cdc t [] False False 0 = (True, s) \<and>
                read_octree cdc r s = Inr (True, r') \<and>
                (\<forall>c. node_logit (deref (getNode r' c False)) = node_logit (deref (getNode t c False)))"
proof -
  define body where "body = snd (writeNodes t [] (root_node t) (depth_levels t) 0)"
  define pres where "pres = print_float (resolution t)"
  define po where "po = print_float (getOccupancyThres t)"
  define pf where "pf = print_float (getFreeThres t)"
  define h where "h = \<lparr>file_version = FILE_VERSION, id = tree_type t, binary = False,
                  h_resolution = pres, h_depth_levels = depth_levels t,
                  h_occupancy_thres = po, h_free_thres = pf,
                  compressed = False, uncompressed_data_size = stream_bytes body\<rparr>"
  obtain d where d: "depth_levels t = Suc (Suc d)"
    using dl(1) by (metis Suc_le_D numeral_2_eq_2 Suc_le_mono le_Suc_ex add_Suc add_0)
  have w: "write_octree cdc t [] False False 0 =
             (True, write_header t False False (stream_bytes body) @ body)"
    using sz by (simp add: write_octree_plain body_def)
  have "depth_levels t < 2 ^ 32" using dl(2) by simp
  then have pre: "read_preamble r (write_header t False False (stream_bytes body) @ body) = Some (h, body)"
    unfolding h_def pres_def po_def pf_def using tt res dl(1) same sz
    by (intro read_preamble_write_header) (simp_all add: list_all_iff stream_bytes_nonneg body_def)
  have "\<exists>t1. (if resolution r \<noteq> pres \<or> depth_levels r \<noteq> depth_levels t
               then (case clear r pres (depth_levels t) of
                       Inl e \<Rightarrow> Inl e
                     | Inr t0 \<Rightarrow> Inr (t0\<lparr>root_node := default_node\<rparr>))
               else Inr r) = Inr t1 \<and>
             depth_levels t1 = depth_levels t \<and> compact_node (depth_levels t1) (root_node t1)"
  proof (cases "resolution r \<noteq> pres \<or> depth_levels r \<noteq> depth_levels t")
    case True
    from clear_depth[OF dl(2), of r pres] obtain t0 where
      "clear r pres (depth_levels t) = Inr t0" "depth_levels t0 = depth_levels t" by blast
    with True show ?thesis by (simp add: d)
  next
    case False
    then have eq: "resolution r = pres" "depth_levels r = depth_levels t" by simp_all
    with recv have "compact_node (depth_levels r) (root_node r)"
      unfolding pres_def by blast
    with eq show ?thesis by (simp del: compact_node.simps)
  qed
  then obtain t1 where
    t1: "(if resolution r \<noteq> pres \<or> depth_levels r \<noteq> depth_levels t
               then (case clear r pres (depth_levels t) of
                       Inl e \<Rightarrow> Inl e
                     | Inr t0 \<Rightarrow> Inr (t0\<lparr>root_node := default_node\<rparr>))
               else Inr r) = Inr t1"
    and d1: "depth_levels t1 = depth_levels t"
    and c1: "compact_node (depth_levels t1) (root_node t1)" by blast
  have ok: "ok_node t (Suc (Suc d)) (root_node t)"
    using wf cl by (simp add: ok_node_def clamped_tree_def d)
  from readNodes_writeNodes[OF ok sm[unfolded d] low c1[unfolded d1 d],
      of t1 "logit po" "logit pf" "[]"]
  obtain root1 t2 where
    rn: "readNodes t1 [] (root_node t1) (depth_levels t) (logit po)
           (logit pf) body = (True, root1, t2, [])"
    and s2: "settings t2 = settings t1"
    and st: "stored_logit root1 (depth_levels t) = stored_logit (root_node t) (depth_levels t)"
    by (auto simp: body_def d)
  have d2: "depth_levels t2 = depth_levels t"
    using settings_fields(7)[OF s2] d1 by simp
  have rd: "read_octree cdc r (write_header t False False (stream_bytes body) @ body) =
              Inr (True, t2\<lparr>root_node := root1\<rparr>)"
    using t1 rn
    by (simp add: read_octree_def pre h_def readData_def readDataPlain_def binarySupport_def d1)
  have "node_logit (deref (getNode (t2\<lparr>root_node := root1\<rparr>) c False)) =
          node_logit (deref (getNode t c False))" for c
    by (simp add: getNode_stored d2 st)
  with w rd show ?thesis by blast
qed

text \<open>
  An instance: \<open>hit_tree\<close> read into \<open>full_tree\<close>, a tree of the same resolution and depth
  whose root is a collapsed node at logit 4 with no child block.
\<close>

lemma write_read_into_full_tree:
  "hasChildren (root_node hit_tree) \<and>
   node_logit (deref (getNode full_tree (Code 0 0) False)) = 4 \<and>
   node_logit (deref (getNode hit_tree (Code 0 0) False)) = 1 \<and>
   (\<exists>s r'. write_octree example_codec hit_tree [] False False 0 = (True, s) \<and>
           read_octree example_codec full_tree s = Inr (True, r') \<and>
           (\<forall>c. node_logit (deref (getNode r' c False)) =
                node_logit (deref (getNode hit_tree c False))))"
proof -
  have a: "wf_node (depth_levels hit_tree) (root_node hit_tree)" "clamped_tree hit_tree"
    "float_lowest \<le> clamping_thres_min_log hit_tree"
    "summarised (depth_levels hit_tree) (root_node hit_tree)"
    "2 \<le> depth_levels hit_tree" "depth_levels hit_tree \<le> 21" "0 < resolution hit_tree"
    "tree_type hit_tree \<noteq> []" "list_all (\<lambda>c. \<not> is_space c) (tree_type hit_tree)"
    "stream_bytes (snd (writeNodes hit_tree [] (root_node hit_tree) (depth_levels hit_tree) 0)) < 2 ^ 31"
    "tree_type full_tree = tree_type hit_tree"
    by code_simp+
  have c: "depth_levels full_tree = depth_levels hit_tree"
    "depth_levels full_tree < length (nodes_half_sizes full_tree)"
    "compact_node (depth_levels full_tree) (root_node full_tree)"
    by code_simp+
  have b: "hasChildren (root_node hit_tree)"
    "node_logit (deref (getNode full_tree (Code 0 0) False)) = 4"
    "node_logit (deref (getNode hit_tree (Code 0 0) False)) = 1"
    by code_simp+
  from write_read_roundtrip[OF a, of example_codec] c b show ?thesis
    by simp
qed

lemma kept_tree_read:
  "(case readNodes kept_tree [] (root_node kept_tree) (depth_levels kept_tree) o1 f1
           (snd (writeNodes hit_tree [] (root_node hit_tree) (depth_levels hit_tree) 0)) of
      (ok, root1, t2, rest) \<Rightarrow>
        ok \<and> stored_logit root1 (depth_levels t2) (Code 1 0) = 1)"
  by code_simp


text \<open>
  The root of \<open>kept_tree\<close> has a child block and is marked collapsed. \<open>createChildren\<close> returns
  at once on it and leaves the mark, so that an update below the root is answered by the
  root afterwards: one hit on the leaf with code 0 changes the logit read at the leaf with
  code 1.
\<close>

lemma kept_tree_root:
  "children (root_node kept_tree) \<noteq> [] \<and> all_children_same (root_node kept_tree) \<and>
   (case createChildren kept_tree (root_node kept_tree) (depth_levels kept_tree) of
      (created, n, t) \<Rightarrow> \<not> created \<and> all_children_same n)"
  by code_simp

lemma kept_tree_hit:
  "node_logit (deref (getNode kept_tree (Code 1 0) False)) = 0 \<and>
   node_logit (deref (getNode (snd (integrateHit kept_tree (Code 0 0))) (Code 1 0) False)) = 1"
  by code_simp

text \<open>
  Claim C1 (write, then read) does not hold of the code.  \<open>kept_tree\<close> is built with the
  public operations: automatic pruning disabled, one hit on the leaf with code 0, then the
  root set to logit 0, which leaves the child blocks allocated under a root marked collapsed.
  It has the resolution, the depth and the tree type of \<open>hit_tree\<close>, so \<open>read\<close> does not clear
  it.  \<open>readNodes\<close> calls \<open>createChildren\<close> on the root, which returns at once for a node that
  has a child block and so never resets \<open>all_children_same\<close>; the children are read into the
  block, but every lookup stops at the root.  After \<open>hit_tree\<close> has been written (no
  compression, text mode, no bounding volume, depth 0) and read into \<open>kept_tree\<close>, both
  successfully, the leaf with code 1 answers logit 1, while \<open>hit_tree\<close> stores 0 there.
\<close>

theorem read_into_kept_block:
  "tree_type kept_tree = tree_type hit_tree \<and>
   (case write_octree example_codec hit_tree [] False False 0 of
      (ok, s) \<Rightarrow>
        ok \<and> (case read_octree example_codec kept_tree s of
                Inl e \<Rightarrow> False
              | Inr (ok', r') \<Rightarrow>
                  ok' \<and> node_logit (deref (getNode r' (Code 1 0) False)) = 1)) \<and>
   node_logit (deref (getNode hit_tree (Code 1 0) False)) = 0"
proof -
  define body where "body = snd (writeNodes hit_tree [] (root_node hit_tree) (depth_levels hit_tree) 0)"
  define po where "po = print_float (getOccupancyThres hit_tree)"
  define pf where "pf = print_float (getFreeThres hit_tree)"
  have a0: "tree_type hit_tree \<noteq> []" "list_all (\<lambda>c. \<not> is_space c) (tree_type hit_tree)"
    "resolution hit_tree = 1" "depth_levels hit_tree = 2"
    "tree_type kept_tree = tree_type hit_tree"
    by code_simp+
  have sz: "stream_bytes (snd (writeNodes hit_tree [] (root_node hit_tree) (depth_levels hit_tree) 0)) < 2 ^ 31"
    by code_simp
  have a: "tree_type hit_tree \<noteq> []" "\<forall>c \<in> set (tree_type hit_tree). \<not> is_space c"
    "0 < resolution hit_tree" "0 < depth_levels hit_tree" "depth_levels hit_tree < 2 ^ 32"
    "tree_type kept_tree = tree_type hit_tree"
    using a0 by (simp_all add: list_all_iff)
  have e: "resolution kept_tree = 1" "depth_levels kept_tree = depth_levels hit_tree"
    by code_simp+
  have v: "node_logit (deref (getNode hit_tree (Code 1 0) False)) = 0"
    by code_simp
  have w: "write_octree example_codec hit_tree [] False False 0 =
             (True, write_header hit_tree False False (stream_bytes body) @ body)"
    using sz by (simp add: write_octree_plain body_def)
  have pre: "read_preamble kept_tree (write_header hit_tree False False (stream_bytes body) @ body) =
          Some (\<lparr>file_version = FILE_VERSION, id = tree_type hit_tree, binary = False,
                  h_resolution = print_float (resolution hit_tree),
                  h_depth_levels = depth_levels hit_tree,
                  h_occupancy_thres = print_float (getOccupancyThres hit_tree),
                  h_free_thres = print_float (getFreeThres hit_tree),
                  compressed = False, uncompressed_data_size = stream_bytes body\<rparr>, body)"
    by (rule read_preamble_write_header[OF a(1-5) stream_bytes_nonneg sz[folded body_def] a(6)])
  obtain ok root1 t2 rest where
    rn: "readNodes kept_tree [] (root_node kept_tree) (depth_levels kept_tree) (logit po) (logit pf) body =
           (ok, root1, t2, rest)"
    by (cases "readNodes kept_tree [] (root_node kept_tree) (depth_levels kept_tree) (logit po) (logit pf) body")
  with kept_tree_read[of "logit po" "logit pf"]
  have k: "ok" "stored_logit root1 (depth_levels t2) (Code 1 0) = 1"
    by (simp_all add: body_def)
  have "read_octree example_codec kept_tree (write_header hit_tree False False (stream_bytes body) @ body) =
          Inr (ok, t2\<lparr>root_node := root1\<rparr>)"
    using rn e
    by (simp add: read_octree_def pre readData_def readDataPlain_def binarySupport_def po_def pf_def
          a0(3) print_float_one)
  with w k v a(6) show ?thesis
    by (simp add: getNode_stored)
qed

end
